theory Spec2Isabelle
  imports Main "HOL-Library.AList" "HOL-Library.Sublist"
begin

section \<open>JavaScript values as the conversion engine sees them\<close>

text \<open>
  The engine of \<^verbatim>\<open>script.js\<close> works on the result of \<^verbatim>\<open>JSON.parse\<close>: nulls,
  booleans, numbers, strings, arrays and plain objects. An object lists its own
  properties in enumeration order. A number is kept as its decimal rendering (what
  \<^verbatim>\<open>String(n)\<close> gives): the engine only ever tests a number for truthiness, turns
  it into a string or compares it with a value of another type.
  The value \<^verbatim>\<open>undefined\<close> is never stored in parsed data; it only comes out of reading
  a property that is absent, so a value that may be undefined is a \<open>json option\<close>
  with \<open>None\<close> for \<^verbatim>\<open>undefined\<close>.
  A parsed object holds every key of its text as an own property, the key
  \<^verbatim>\<open>__proto__\<close> too, and has the prototype every object literal has.
  \<open>JHost\<close> is a built-in of the runtime, named by its path: a function or a
  prototype object that every object inherits from. Parsed input holds none; the engine
  can only come by one when it reads a name from the name map, which is a plain object
  (lines 286 and 294).
\<close>

datatype json =
    JNull
  | JBool bool
  | JNum string
  | JStr string
  | JArr "json list"
  | JObj "(string \<times> json) list"
  | JHost string

datatype error = TypeError

text \<open>Decimal rendering of array indices, loop counters and clock readings.\<close>

definition digit_char :: "nat \<Rightarrow> char" where
  "digit_char d = char_of (48 + d)"

function show_nat :: "nat \<Rightarrow> string" where
  "show_nat n = (if n < 10 then [digit_char n] else show_nat (n div 10) @ [digit_char (n mod 10)])"
  by pat_completeness auto
termination
  by (relation "measure id") auto

declare show_nat.simps [simp del]

definition show_int :: "int \<Rightarrow> string" where
  "show_int i = (if i < 0 then CHR ''-'' # show_nat (nat (- i)) else show_nat (nat i))"

text \<open>The own enumerable properties of an array are its indices, in order.\<close>

definition index_entries :: "json list \<Rightarrow> (string \<times> json) list" where
  "index_entries xs = zip (map show_nat [0..<length xs]) xs"

text \<open>
  \<^verbatim>\<open>Object.keys(v)\<close> paired with \<^verbatim>\<open>v[key]\<close>, and the properties that \<^verbatim>\<open>{ ...v }\<close>
  copies: the own enumerable properties of an object or an array.
\<close>

fun own_entries :: "json \<Rightarrow> (string \<times> json) list" where
  "own_entries (JObj kvs) = kvs"
| "own_entries (JArr xs) = index_entries xs"
| "own_entries _ = []"

text \<open>
  \<^verbatim>\<open>v.k\<close> on a value that is neither null nor undefined, for the names the engine
  reads from parsed data (type, function, name, alias, role, content, ...) and for an own
  key: none of these names is a member of a prototype, and a string, a number or a
  boolean carries none of them.
\<close>

definition field :: "json \<Rightarrow> string \<Rightarrow> json option" where
  "field v k = map_of (own_entries v) k"

text \<open>\<^verbatim>\<open>v?.k\<close>, and \<^verbatim>\<open>v.k\<close> behind a guard \<^verbatim>\<open>v && ...\<close>.\<close>

fun jget :: "json option \<Rightarrow> string \<Rightarrow> json option" where
  "jget None k = None"
| "jget (Some JNull) k = None"
| "jget (Some v) k = field v k"

text \<open>JavaScript truthiness.\<close>

fun truthy :: "json option \<Rightarrow> bool" where
  "truthy None = False"
| "truthy (Some JNull) = False"
| "truthy (Some (JBool b)) = b"
| "truthy (Some (JNum n)) = (n \<noteq> ''0'' \<and> n \<noteq> ''NaN'')"
| "truthy (Some (JStr s)) = (s \<noteq> [])"
| "truthy (Some (JArr xs)) = True"
| "truthy (Some (JObj kvs)) = True"
| "truthy (Some (JHost h)) = True"

text \<open>\<^verbatim>\<open>a || b\<close>\<close>

definition jor :: "json option \<Rightarrow> json option \<Rightarrow> json option" where
  "jor a b = (if truthy a then a else b)"

text \<open>\<^verbatim>\<open>v && typeof v === 'object'\<close>: arrays and plain objects.\<close>

fun is_object :: "json \<Rightarrow> bool" where
  "is_object (JObj kvs) = True"
| "is_object (JArr xs) = True"
| "is_object _ = False"

section \<open>The tool normalizer\<close>

text \<open>
  \<^verbatim>\<open>normalizeSchema\<close> (script.js, lines 120 to 151). The node is copied with
  \<^verbatim>\<open>{ ...schemaNode }\<close> and only the copy is assigned to; assigning to a property keeps
  its place in the enumeration order, or appends it when it is new
  (\<open>AList.update\<close>). The loop over \<^verbatim>\<open>propKeys\<close> fills \<^verbatim>\<open>normalizedProps\<close> key by
  key, in order. \<^verbatim>\<open>normalizedProps\<close> starts as \<^verbatim>\<open>{}\<close>, so the assignment
  \<^verbatim>\<open>normalizedProps[key] = ...\<close> of line 141 with the key \<^verbatim>\<open>__proto__\<close> runs the setter
  that \<^verbatim>\<open>Object.prototype\<close> has under that name: it sets the prototype of
  \<^verbatim>\<open>normalizedProps\<close> (when the value is an object or null) and makes no property, so
  that key is not among the own properties of the result. The two \<^verbatim>\<open>if\<close>s of the
  source test the same \<^verbatim>\<open>type\<close> field, which the first one leaves as it is, against
  two different constants: the second one is the \<open>else\<close> branch here.
\<close>

text \<open>The entries that assignments with their keys leave as own properties of a \<^verbatim>\<open>{}\<close>.\<close>

definition assigned_entries :: "(string \<times> json) list \<Rightarrow> (string \<times> json) list" where
  "assigned_entries kvs = filter (\<lambda>(key, v). key \<noteq> ''__proto__'') kvs"

lemma size_zip_less:
  "(k, v) \<in> set (zip ks xs) \<Longrightarrow> size v < Suc (size_list size xs)"
proof (induction xs arbitrary: ks)
  case Nil
  then show ?case by simp
next
  case (Cons x xs)
  show ?case
  proof (cases ks)
    case Nil
    with Cons.prems show ?thesis by simp
  next
    case (Cons a list)
    with Cons.prems have "v = x \<or> (k, v) \<in> set (zip list xs)" by auto
    then show ?thesis
    proof
      assume "v = x"
      then show ?thesis by simp
    next
      assume "(k, v) \<in> set (zip list xs)"
      from Cons.IH [OF this] show ?thesis by simp
    qed
  qed
qed

lemma size_member_less:
  "(k, v) \<in> set kvs \<Longrightarrow> size v < Suc (size_list (size_prod (\<lambda>_. 0) size) kvs)"
  by (induction kvs) auto

lemma size_own_entries_less:
  "(k, v) \<in> set (own_entries p) \<Longrightarrow> size v < size p"
proof (cases p)
  case (JArr xs)
  assume "(k, v) \<in> set (own_entries p)"
  with JArr show ?thesis
    using size_zip_less [of k v "map show_nat [0..<length xs]" xs]
    by (simp add: index_entries_def)
next
  case (JObj kvs)
  assume "(k, v) \<in> set (own_entries p)"
  with JObj show ?thesis
    using size_member_less [of k v kvs] by simp
qed auto

lemma size_field_less:
  "field p k = Some v \<Longrightarrow> size v < size p"
  unfolding field_def by (auto dest!: map_of_SomeD intro: size_own_entries_less)

function normalizeSchema :: "json \<Rightarrow> json" where
  "normalizeSchema schemaNode =
     (if \<not> is_object schemaNode then schemaNode
      else
        let normalized = own_entries schemaNode in
        if map_of normalized ''type'' = Some (JStr ''object'') then
          let props = (case map_of normalized ''properties'' of
                         Some p \<Rightarrow> if is_object p then own_entries p else []
                       | None \<Rightarrow> []);
              normalized1 =
                (if length props = 0 \<and> map_of normalized ''additionalProperties'' = Some (JBool False)
                 then AList.update ''additionalProperties'' (JBool True) normalized
                 else normalized);
              normalizedProps = assigned_entries (map (\<lambda>(key, v). (key, normalizeSchema v)) props)
          in JObj (AList.update ''properties'' (JObj normalizedProps) normalized1)
        else if map_of normalized ''type'' = Some (JStr ''array'') \<and> truthy (map_of normalized ''items'') then
          (case map_of normalized ''items'' of
             Some items \<Rightarrow> JObj (AList.update ''items'' (normalizeSchema items) normalized)
           | None \<Rightarrow> JObj normalized)
        else JObj normalized)"
  by pat_completeness auto

termination
proof (relation "measure size", goal_cases)
  case 1
  show ?case by simp
next
  case (2 schemaNode normalized props normalized1 z key v)
  from 2 obtain p where p: "map_of (own_entries schemaNode) ''properties'' = Some p"
    and m: "(key, v) \<in> set (own_entries p)"
    by (auto split: option.splits if_splits)
  from p have "size p < size schemaNode"
    using size_field_less [of schemaNode "''properties''" p] by (simp add: field_def)
  moreover from m have "size v < size p" by (rule size_own_entries_less)
  ultimately show ?case by simp
next
  case (3 schemaNode normalized items)
  then show ?case
    using size_field_less [of schemaNode "''items''" items] by (simp add: field_def)
qed

declare normalizeSchema.simps [simp del]

text \<open>\<^verbatim>\<open>a || d\<close> where \<open>d\<close> is a value that is there.\<close>

fun or_else :: "json option \<Rightarrow> json \<Rightarrow> json" where
  "or_else None d = d"
| "or_else (Some v) d = (if truthy (Some v) then v else d)"

text \<open>The literal \<^verbatim>\<open>{ type: 'object', properties: {}, required: [] }\<close>.\<close>

definition default_parameters :: json where
  "default_parameters =
     JObj [(''type'', JStr ''object''), (''properties'', JObj []), (''required'', JArr [])]"

text \<open>\<^verbatim>\<open>tool.type === 'function' && tool.function\<close> (line 155).\<close>

definition target_shaped :: "json \<Rightarrow> bool" where
  "target_shaped tool \<longleftrightarrow>
     field tool ''type'' = Some (JStr ''function'') \<and> truthy (field tool ''function'')"

text \<open>\<^verbatim>\<open>tool.alias || tool.name || 'unknown_function'\<close> (lines 160 and 196).\<close>

definition finalName_of :: "json \<Rightarrow> json" where
  "finalName_of tool =
     or_else (field tool ''alias'') (or_else (field tool ''name'') (JStr ''unknown_function''))"

text \<open>The parameters of a converted tool (lines 164 to 169).\<close>

definition tool_parameters :: "json \<Rightarrow> json" where
  "tool_parameters tool =
     (if truthy (field tool ''config'') \<and> truthy (jget (field tool ''config'') ''schema'') then
        (case jget (field tool ''config'') ''schema'' of
           Some schema \<Rightarrow> normalizeSchema schema
         | None \<Rightarrow> default_parameters)
      else if truthy (field tool ''function'') \<and> truthy (jget (field tool ''function'') ''parameters'') then
        (case jget (field tool ''function'') ''parameters'' of
           Some ps \<Rightarrow> normalizeSchema ps
         | None \<Rightarrow> default_parameters)
      else default_parameters)"

text \<open>
  The callback of \<^verbatim>\<open>inputTools.map\<close> (lines 153 to 179). Reading \<^verbatim>\<open>tool.type\<close> of a
  \<^verbatim>\<open>null\<close> element throws a TypeError; every other value can be read from.
\<close>

definition convertTool :: "json \<Rightarrow> error + json" where
  "convertTool tool =
     (if tool = JNull then Inl TypeError
      else if target_shaped tool then Inr tool
      else
        let functionName = finalName_of tool;
            description = or_else (field tool ''description'') (JStr []);
            parameters = tool_parameters tool
        in Inr (JObj [(''type'', JStr ''function''),
                      (''function'', JObj [(''name'', functionName),
                                           (''description'', description),
                                           (''parameters'', parameters)])]))"

text \<open>\<^verbatim>\<open>inputTools.map(...)\<close>: the first element that throws ends the whole call.\<close>

fun convertTools :: "json list \<Rightarrow> error + json list" where
  "convertTools [] = Inr []"
| "convertTools (tool # rest) =
     (case convertTool tool of
        Inl e \<Rightarrow> Inl e
      | Inr t \<Rightarrow> (case convertTools rest of Inl e \<Rightarrow> Inl e | Inr ts \<Rightarrow> Inr (t # ts)))"

section \<open>The name resolver\<close>

text \<open>
  \<^verbatim>\<open>String(v)\<close>, which is also how a value used as a property key or joined into a
  string is rendered. An array joins its elements with commas, \<^verbatim>\<open>null\<close> elements as the
  empty string. An object is rendered by the \<^verbatim>\<open>toString\<close> it inherits, unless it has a
  property of its own under that name: parsed data is never a function, so the
  conversion then finds nothing to call and throws a TypeError. A built-in never
  reaches a conversion (it is neither a key nor joined); it is rendered by its name.
\<close>

fun join :: "string \<Rightarrow> string list \<Rightarrow> string" where
  "join sep [] = []"
| "join sep [s] = s"
| "join sep (s # t # ss) = s @ sep @ join sep (t # ss)"

text \<open>The results of conversions made one after the other: the first that throws ends them.\<close>

fun sequence :: "(error + 'a) list \<Rightarrow> error + 'a list" where
  "sequence [] = Inr []"
| "sequence (x # xs) =
     (case x of
        Inl e \<Rightarrow> Inl e
      | Inr v \<Rightarrow> (case sequence xs of Inl e \<Rightarrow> Inl e | Inr vs \<Rightarrow> Inr (v # vs)))"

fun js_to_string :: "json \<Rightarrow> error + string" where
  "js_to_string JNull = Inr ''null''"
| "js_to_string (JBool b) = Inr (if b then ''true'' else ''false'')"
| "js_to_string (JNum n) = Inr n"
| "js_to_string (JStr s) = Inr s"
| "js_to_string (JArr xs) =
     (case sequence (map (\<lambda>x. if x = JNull then Inr [] else js_to_string x) xs) of
        Inl e \<Rightarrow> Inl e
      | Inr ss \<Rightarrow> Inr (join '','' ss))"
| "js_to_string (JObj kvs) =
     (if map_of kvs ''toString'' \<noteq> None then Inl TypeError else Inr ''[object Object]'')"
| "js_to_string (JHost h) = Inr h"

text \<open>
  The name map is the plain object \<^verbatim>\<open>{}\<close> of line 187: its own properties, and its
  prototype when an assignment has replaced the one it was created with (\<open>None\<close> is
  \<^verbatim>\<open>Object.prototype\<close>).
\<close>

datatype name_map = NameMap (own: "string \<Rightarrow> json option") (proto: "json option")

definition empty_name_map :: name_map where
  "empty_name_map = NameMap Map.empty None"

text \<open>
  The names of the members of \<^verbatim>\<open>Object.prototype\<close> and of \<^verbatim>\<open>Array.prototype\<close> (ECMAScript
  2023 with its annex B); \<^verbatim>\<open>__proto__\<close>, an accessor, is treated apart.
\<close>

definition object_prototype_names :: "string list" where
  "object_prototype_names =
     [''constructor'', ''hasOwnProperty'', ''isPrototypeOf'', ''propertyIsEnumerable'',
      ''toLocaleString'', ''toString'', ''valueOf'', ''__defineGetter__'', ''__defineSetter__'',
      ''__lookupGetter__'', ''__lookupSetter__'']"

definition array_prototype_names :: "string list" where
  "array_prototype_names =
     [''at'', ''concat'', ''constructor'', ''copyWithin'', ''entries'', ''every'', ''fill'',
      ''filter'', ''find'', ''findIndex'', ''findLast'', ''findLastIndex'', ''flat'', ''flatMap'',
      ''forEach'', ''includes'', ''indexOf'', ''join'', ''keys'', ''lastIndexOf'', ''map'', ''pop'',
      ''push'', ''reduce'', ''reduceRight'', ''reverse'', ''shift'', ''slice'', ''some'', ''sort'',
      ''splice'', ''toLocaleString'', ''toReversed'', ''toSorted'', ''toSpliced'', ''toString'',
      ''unshift'', ''values'', ''with'']"

text \<open>The own properties of a parsed value under any key: an array has a length too.\<close>

definition own_property :: "json \<Rightarrow> string \<Rightarrow> json option" where
  "own_property v k =
     (case v of
        JArr xs \<Rightarrow> if k = ''length'' then Some (JNum (show_nat (length xs))) else field v k
      | _ \<Rightarrow> field v k)"

text \<open>
  What \<^verbatim>\<open>Object.prototype\<close> gives for a key: a member, or under \<^verbatim>\<open>__proto__\<close> the
  prototype \<open>p\<close> of the object that is read.
\<close>

definition from_object_prototype :: "json \<Rightarrow> string \<Rightarrow> json option" where
  "from_object_prototype p k =
     (if k = ''__proto__'' then Some p
      else if k \<in> set object_prototype_names then Some (JHost (''Object.prototype.'' @ k))
      else None)"

text \<open>What an object with the prototype \<open>p\<close> inherits for a key.\<close>

definition inherited :: "json option \<Rightarrow> string \<Rightarrow> json option" where
  "inherited p k =
     (case p of
        None \<Rightarrow> from_object_prototype (JHost ''Object.prototype'') k
      | Some P \<Rightarrow>
          (case own_property P k of
             Some v \<Rightarrow> Some v
           | None \<Rightarrow>
               (case P of
                  JArr xs \<Rightarrow>
                    if k \<in> set array_prototype_names then Some (JHost (''Array.prototype.'' @ k))
                    else from_object_prototype P k
                | _ \<Rightarrow> from_object_prototype P k)))"

text \<open>\<^verbatim>\<open>toolNameMap[key]\<close>\<close>

definition read_name :: "name_map \<Rightarrow> string \<Rightarrow> json option" where
  "read_name m k = (case own m k of Some v \<Rightarrow> Some v | None \<Rightarrow> inherited (proto m) k)"

text \<open>
  \<^verbatim>\<open>map[key] = v\<close>. Under \<^verbatim>\<open>__proto__\<close>, unless the map or the object that was made its
  prototype has a property of its own there, the setter of \<^verbatim>\<open>Object.prototype\<close> runs:
  an object becomes the prototype of the map, any other value is ignored, and no
  property is made. Every other key becomes an own property.
\<close>

definition assign :: "name_map \<Rightarrow> string \<Rightarrow> json \<Rightarrow> name_map" where
  "assign m k v =
     (if k = ''__proto__'' \<and> own m k = None
         \<and> (case proto m of Some P \<Rightarrow> own_property P k = None | None \<Rightarrow> True)
      then (if is_object v then NameMap (own m) (Some v) else m)
      else NameMap ((own m)(k \<mapsto> v)) (proto m))"

text \<open>\<^verbatim>\<open>if (x) { map[x] = v; }\<close>: the key is \<open>x\<close> as a string.\<close>

definition assign_under :: "name_map \<Rightarrow> json option \<Rightarrow> json \<Rightarrow> error + name_map" where
  "assign_under m x v =
     (case x of
        Some n \<Rightarrow>
          if truthy (Some n) then
            (case js_to_string n of Inl e \<Rightarrow> Inl e | Inr k \<Rightarrow> Inr (assign m k v))
          else Inr m
      | None \<Rightarrow> Inr m)"

text \<open>
  One turn of the loop of \<^verbatim>\<open>buildToolNameMap\<close> (lines 189 to 203): the map after the
  assignments this tool makes.
\<close>

definition map_tool :: "json \<Rightarrow> name_map \<Rightarrow> error + name_map" where
  "map_tool tool m =
     (if tool = JNull then Inl TypeError
      else if field tool ''type'' = Some (JStr ''function'') \<and> truthy (field tool ''function'')
              \<and> truthy (jget (field tool ''function'') ''name'') then
        (case jget (field tool ''function'') ''name'' of
           Some n \<Rightarrow> assign_under m (Some n) n
         | None \<Rightarrow> Inr m)
      else
        let finalName = finalName_of tool
        in case assign_under m (field tool ''name'') finalName of
             Inl e \<Rightarrow> Inl e
           | Inr m1 \<Rightarrow> assign_under m1 (field tool ''alias'') finalName)"

fun buildToolNameMap_from :: "name_map \<Rightarrow> json list \<Rightarrow> error + name_map" where
  "buildToolNameMap_from m [] = Inr m"
| "buildToolNameMap_from m (tool # rest) =
     (case map_tool tool m of Inl e \<Rightarrow> Inl e | Inr m' \<Rightarrow> buildToolNameMap_from m' rest)"

definition buildToolNameMap :: "json list \<Rightarrow> error + name_map" where
  "buildToolNameMap inputTools = buildToolNameMap_from empty_name_map inputTools"

section \<open>The message reconstructor\<close>

subsection \<open>Strings\<close>

text \<open>
  \<^verbatim>\<open>JSON.stringify(v)\<close> with no indentation. A number that is not finite is written
  \<^verbatim>\<open>null\<close>; a string is quoted, with the quote, the backslash and the control
  characters escaped.
\<close>

definition hex_digit :: "nat \<Rightarrow> char" where
  "hex_digit d = (if d < 10 then char_of (48 + d) else char_of (87 + d))"

definition escape_char :: "char \<Rightarrow> string" where
  "escape_char c =
     (if c = CHR 0x22 then [CHR 0x5C, CHR 0x22]
      else if c = CHR 0x5C then [CHR 0x5C, CHR 0x5C]
      else if c = CHR 0x08 then [CHR 0x5C, CHR ''b'']
      else if c = CHR 0x0C then [CHR 0x5C, CHR ''f'']
      else if c = CHR 0x0A then [CHR 0x5C, CHR ''n'']
      else if c = CHR 0x0D then [CHR 0x5C, CHR ''r'']
      else if c = CHR 0x09 then [CHR 0x5C, CHR ''t'']
      else if (of_char c :: nat) < 32 then
        [CHR 0x5C, CHR ''u'', CHR ''0'', CHR ''0'',
         hex_digit (of_char c div 16), hex_digit (of_char c mod 16)]
      else [c])"

definition quote :: "string \<Rightarrow> string" where
  "quote s = [CHR 0x22] @ concat (map escape_char s) @ [CHR 0x22]"

fun stringify :: "json \<Rightarrow> string" where
  "stringify JNull = ''null''"
| "stringify (JBool b) = (if b then ''true'' else ''false'')"
| "stringify (JNum n) =
     (if n = ''NaN'' \<or> n = ''Infinity'' \<or> n = ''-Infinity'' then ''null'' else n)"
| "stringify (JStr s) = quote s"
| "stringify (JArr xs) = ''['' @ join '','' (map stringify xs) @ '']''"
| "stringify (JObj kvs) =
     ''{'' @ join '','' (map (\<lambda>(k, v). quote k @ '':'' @ stringify v) kvs) @ ''}''"

text \<open>
  \<^verbatim>\<open>s.trim()\<close>: the white space and line terminators of ECMAScript among the
  characters below 256.
\<close>

definition is_space :: "char \<Rightarrow> bool" where
  "is_space c \<longleftrightarrow> (of_char c :: nat) \<in> {9, 10, 11, 12, 13, 32, 160}"

definition trim :: "string \<Rightarrow> string" where
  "trim s = rev (dropWhile is_space (rev (dropWhile is_space s)))"

text \<open>
  \<^verbatim>\<open>nextContent.match(/Executed \*\*([^*]+)\*\*/i)\<close>, the first capture group of the
  leftmost match. At a start position the greedy group takes every character up to
  the next asterisk; giving characters back cannot help, since what follows a shorter
  group is not an asterisk.
\<close>

definition ascii_lower :: "char \<Rightarrow> char" where
  "ascii_lower c =
     (if 65 \<le> (of_char c :: nat) \<and> (of_char c :: nat) \<le> 90 then char_of ((of_char c :: nat) + 32) else c)"

definition match_here :: "string \<Rightarrow> string option" where
  "match_here s =
     (if map ascii_lower (take 9 s) = ''executed '' \<and> take 2 (drop 9 s) = ''**'' then
        let rest = drop 11 s;
            name = takeWhile (\<lambda>c. c \<noteq> CHR ''*'') rest;
            after = dropWhile (\<lambda>c. c \<noteq> CHR ''*'') rest
        in if name \<noteq> [] \<and> take 2 after = ''**'' then Some name else None
      else None)"

fun executedMatch :: "string \<Rightarrow> string option" where
  "executedMatch [] = None"
| "executedMatch (c # cs) =
     (case match_here (c # cs) of Some name \<Rightarrow> Some name | None \<Rightarrow> executedMatch cs)"

subsection \<open>Content normalization\<close>

text \<open>
  \<^verbatim>\<open>convertMessageContent\<close> (lines 213 to 234). The filter reads \<^verbatim>\<open>item.type\<close> of every
  element before anything is joined, so a \<^verbatim>\<open>null\<close> element throws; \<^verbatim>\<open>join\<close> turns
  each text into a string, which throws for an object that cannot be converted.
\<close>

definition is_text_item :: "json \<Rightarrow> bool" where
  "is_text_item item \<longleftrightarrow>
     field item ''type'' = Some (JStr ''text'') \<and> truthy (field item ''text'')"

definition item_text :: "json \<Rightarrow> error + string" where
  "item_text item =
     (case field item ''text'' of
        Some t \<Rightarrow> (if t = JNull then Inr [] else js_to_string t)
      | None \<Rightarrow> Inr [])"

fun convertMessageContent :: "json option \<Rightarrow> error + string" where
  "convertMessageContent (Some (JStr s)) = Inr s"
| "convertMessageContent (Some (JArr items)) =
     (if JNull \<in> set items then Inl TypeError
      else case sequence (map item_text (filter is_text_item items)) of
             Inl e \<Rightarrow> Inl e
           | Inr texts \<Rightarrow> Inr (join [CHR 0x0A] texts))"
| "convertMessageContent (Some (JObj kvs)) = Inr (stringify (JObj kvs))"
| "convertMessageContent None = Inr []"
| "convertMessageContent (Some v) = (if truthy (Some v) then js_to_string v else Inr [])"

subsection \<open>Assistant tool calls\<close>

text \<open>
  The reading of \<^verbatim>\<open>Date.now()\<close> taken when the call at index \<open>idx\<close> of the message at
  index \<open>i\<close> is given an identifier: an input of the model, since the source reads
  the wall clock.
\<close>

type_synonym clock = "nat \<Rightarrow> nat \<Rightarrow> int"

definition synthesized_id :: "clock \<Rightarrow> nat \<Rightarrow> nat \<Rightarrow> string" where
  "synthesized_id now i idx = ''call_'' @ show_int (now i idx) @ ''_'' @ show_nat i @ ''_'' @ show_nat idx"

text \<open>\<^verbatim>\<open>inputMessages[i]\<close>, \<^verbatim>\<open>undefined\<close> past the end.\<close>

definition nth_opt :: "'a list \<Rightarrow> nat \<Rightarrow> 'a option" where
  "nth_opt xs i = (if i < length xs then Some (xs ! i) else None)"

text \<open>The name and the arguments read off a call (lines 265 to 282).\<close>

definition raw_name_args :: "json \<Rightarrow> json \<times> json" where
  "raw_name_args call =
     (let (rawName, rawArgs) =
            (if truthy (field call ''name'')
             then (or_else (field call ''name'') (JStr []), or_else (field call ''args'') (JObj []))
             else (JStr [], JObj []))
      in if truthy (field call ''function'') \<and> truthy (jget (field call ''function'') ''name'') then
           (or_else (jget (field call ''function'') ''name'') (JStr []),
            (case jget (field call ''function'') ''arguments'' of
               Some (JStr s) \<Rightarrow> JStr s
             | a \<Rightarrow> or_else a (JObj [])))
         else (rawName, rawArgs))"

text \<open>
  The heuristic of lines 286 to 292: when the map does not know the name, the name
  between the asterisks of \<^verbatim>\<open>Executed **name**\<close> in the next message, if it is there.
\<close>

definition recover_name :: "name_map \<Rightarrow> json list \<Rightarrow> nat \<Rightarrow> json \<Rightarrow> error + json" where
  "recover_name toolNameMap inputMessages i rawName =
     (case js_to_string rawName of
        Inl e \<Rightarrow> Inl e
      | Inr key \<Rightarrow>
          if \<not> truthy (read_name toolNameMap key) \<and> truthy (nth_opt inputMessages (i + 1)) then
            (case convertMessageContent (jget (nth_opt inputMessages (i + 1)) ''content'') of
               Inl e \<Rightarrow> Inl e
             | Inr nextContent \<Rightarrow>
                 (case executedMatch nextContent of
                    Some name \<Rightarrow> Inr (JStr (trim name))
                  | None \<Rightarrow> Inr rawName))
          else Inr rawName)"

text \<open>
  The callback of \<^verbatim>\<open>msg.tool_calls.map\<close> (lines 262 to 308): the identifier it pushes
  on the pending queue and the call it returns.
\<close>

definition convertToolCall ::
  "clock \<Rightarrow> name_map \<Rightarrow> json list \<Rightarrow> nat \<Rightarrow> nat \<Rightarrow> json \<Rightarrow> error + (json \<times> json)" where
  "convertToolCall now toolNameMap inputMessages i idx call =
     (if call = JNull then Inl TypeError
      else
        let callId = or_else (field call ''id'') (JStr (synthesized_id now i idx));
            (rawName0, rawArgs) = raw_name_args call
        in case recover_name toolNameMap inputMessages i rawName0 of
             Inl e \<Rightarrow> Inl e
           | Inr rawName \<Rightarrow>
               (case js_to_string rawName of
                  Inl e \<Rightarrow> Inl e
                | Inr key \<Rightarrow>
                    let finalName = or_else (read_name toolNameMap key) rawName;
                        argumentsString =
                          (case rawArgs of
                             JStr s \<Rightarrow> s
                           | _ \<Rightarrow> stringify (or_else (Some rawArgs) (JObj [])))
                    in Inr (callId,
                            JObj [(''id'', callId),
                                  (''type'', JStr ''function''),
                                  (''function'', JObj [(''name'', finalName),
                                                       (''arguments'', JStr argumentsString)])])))"

text \<open>The whole \<^verbatim>\<open>map\<close>: the identifiers pushed, in order, and the calls.\<close>

fun convertToolCalls ::
  "clock \<Rightarrow> name_map \<Rightarrow> json list \<Rightarrow> nat \<Rightarrow> nat \<Rightarrow> json list \<Rightarrow> error + (json list \<times> json list)" where
  "convertToolCalls now toolNameMap inputMessages i idx [] = Inr ([], [])"
| "convertToolCalls now toolNameMap inputMessages i idx (call # calls) =
     (case convertToolCall now toolNameMap inputMessages i idx call of
        Inl e \<Rightarrow> Inl e
      | Inr (callId, c) \<Rightarrow>
          (case convertToolCalls now toolNameMap inputMessages i (Suc idx) calls of
             Inl e \<Rightarrow> Inl e
           | Inr (ids, cs) \<Rightarrow> Inr (callId # ids, c # cs)))"

subsection \<open>One transcript message\<close>

definition allowedRoles :: "string list" where
  "allowedRoles = [''system'', ''user'', ''assistant'', ''tool'', ''function'', ''developer'']"

text \<open>\<^verbatim>\<open>allowedRoles.has(msg.role)\<close>: only a string can be a member.\<close>

definition isValidRole :: "json option \<Rightarrow> bool" where
  "isValidRole role = (case role of Some (JStr r) \<Rightarrow> r \<in> set allowedRoles | _ \<Rightarrow> False)"

text \<open>\<^verbatim>\<open>msg.additional_kwargs?.node_metadata?.nodeType\<close>\<close>

definition nodeType_of :: "json \<Rightarrow> json option" where
  "nodeType_of msg = jget (jget (field msg ''additional_kwargs'') ''node_metadata'') ''nodeType''"

text \<open>
  \<^verbatim>\<open>msg.role === 'assistant' && Array.isArray(msg.tool_calls) && msg.tool_calls.length > 0\<close>:
  the calls of such a message.
\<close>

definition assistant_calls :: "json \<Rightarrow> json list option" where
  "assistant_calls msg =
     (if field msg ''role'' = Some (JStr ''assistant'') then
        (case field msg ''tool_calls'' of
           Some (JArr calls) \<Rightarrow> if length calls > 0 then Some calls else None
         | _ \<Rightarrow> None)
      else None)"

text \<open>
  What lines 319 to 364 decide for a message that is not an assistant message with
  calls: to answer the oldest pending call (the two branches that \<^verbatim>\<open>shift\<close> the queue
  and \<^verbatim>\<open>continue\<close>), or the role under which the message goes on to line 366.
\<close>

datatype decision = ToolResponse json "json list" | FinalRole json

text \<open>
  \<^verbatim>\<open>if (pendingToolCallIds.length > 0) { const toolCallId = pendingToolCallIds.shift(); ... }\<close>
  with the role taken when the queue is empty.
\<close>

definition shift_or :: "json list \<Rightarrow> json \<Rightarrow> decision" where
  "shift_or pendingToolCallIds role =
     (case pendingToolCallIds of
        toolCallId # rest \<Rightarrow> ToolResponse toolCallId rest
      | [] \<Rightarrow> FinalRole role)"

definition decide_role :: "json \<Rightarrow> json list \<Rightarrow> decision" where
  "decide_role msg pendingToolCallIds =
     (let nodeType = nodeType_of msg in
      if isValidRole (field msg ''role'') then FinalRole (or_else (field msg ''role'') (JStr ''assistant''))
      else if truthy nodeType then
        (if nodeType = Some (JStr ''tool'') \<or> nodeType = Some (JStr ''script'') then
           shift_or pendingToolCallIds (JStr ''assistant'')
         else if nodeType = Some (JStr ''llm'') \<or> nodeType = Some (JStr ''agent'') then
           FinalRole (JStr ''assistant'')
         else FinalRole (JStr ''assistant''))
      else shift_or pendingToolCallIds (JStr ''assistant''))"

text \<open>\<^verbatim>\<open>content || ''\<close> on a string.\<close>

definition content_or_empty :: "string \<Rightarrow> string" where
  "content_or_empty content = (if content \<noteq> [] then content else [])"

text \<open>
  One turn of the loop of \<^verbatim>\<open>convertMessages\<close> (lines 257 to 374) on the message at
  index \<open>i\<close>: the pending queue afterwards and the messages pushed on the output
  (none or one).
\<close>

definition convertMessage ::
  "clock \<Rightarrow> name_map \<Rightarrow> json list \<Rightarrow> nat \<Rightarrow> json list \<Rightarrow> json \<Rightarrow> error + (json list \<times> json list)" where
  "convertMessage now toolNameMap inputMessages i pendingToolCallIds msg =
     (if msg = JNull then Inl TypeError
      else case convertMessageContent (field msg ''content'') of
        Inl e \<Rightarrow> Inl e
      | Inr content \<Rightarrow>
          (case assistant_calls msg of
             Some calls \<Rightarrow>
               (case convertToolCalls now toolNameMap inputMessages i 0 calls of
                  Inl e \<Rightarrow> Inl e
                | Inr (ids, normalizedToolCalls) \<Rightarrow>
                    Inr (pendingToolCallIds @ ids,
                         [JObj [(''role'', JStr ''assistant''),
                                (''content'', JStr (content_or_empty content)),
                                (''tool_calls'', JArr normalizedToolCalls)]]))
           | None \<Rightarrow>
               (case decide_role msg pendingToolCallIds of
                  ToolResponse toolCallId rest \<Rightarrow>
                    Inr (rest,
                         [JObj [(''role'', JStr ''tool''),
                                (''tool_call_id'', toolCallId),
                                (''content'', JStr (content_or_empty content))]])
                | FinalRole finalRole \<Rightarrow>
                    if content = [] \<or> trim content = [] then Inr (pendingToolCallIds, [])
                    else Inr (pendingToolCallIds,
                              [JObj [(''role'', finalRole), (''content'', JStr content)]]))))"

subsection \<open>The transcript\<close>

function convertMessages_from ::
  "clock \<Rightarrow> name_map \<Rightarrow> json list \<Rightarrow> nat \<Rightarrow> json list \<Rightarrow> json list \<Rightarrow> error + json list" where
  "convertMessages_from now toolNameMap inputMessages i pendingToolCallIds convertedMessages =
     (if i < length inputMessages then
        (case convertMessage now toolNameMap inputMessages i pendingToolCallIds (inputMessages ! i) of
           Inl e \<Rightarrow> Inl e
         | Inr (pending', pushed) \<Rightarrow>
             convertMessages_from now toolNameMap inputMessages (i + 1) pending' (convertedMessages @ pushed))
      else Inr convertedMessages)"
  by pat_completeness auto
termination
  by (relation "measure (\<lambda>(now, toolNameMap, inputMessages, i, p, c). length inputMessages - i)") auto

declare convertMessages_from.simps [simp del]

definition convertMessages :: "clock \<Rightarrow> json list \<Rightarrow> name_map \<Rightarrow> error + json list" where
  "convertMessages now inputMessages toolNameMap =
     convertMessages_from now toolNameMap inputMessages 0 [] []"

section \<open>The run of the engine\<close>

text \<open>
  The three calls of \<^verbatim>\<open>generateCurl\<close> (lines 476 to 480), in their order; an exception
  of any of them ends the run.
\<close>

definition pipeline :: "clock \<Rightarrow> json list \<Rightarrow> json list \<Rightarrow> error + (json list \<times> json list)" where
  "pipeline now inputTools inputMessages =
     (case convertTools inputTools of
        Inl e \<Rightarrow> Inl e
      | Inr convertedTools \<Rightarrow>
          (case buildToolNameMap inputTools of
             Inl e \<Rightarrow> Inl e
           | Inr toolNameMap \<Rightarrow>
               (case convertMessages now inputMessages toolNameMap of
                  Inl e \<Rightarrow> Inl e
                | Inr convertedMessages \<Rightarrow> Inr (convertedTools, convertedMessages))))"

section \<open>The normalizer on a store\<close>

text \<open>
  Whether \<^verbatim>\<open>normalizeSchema\<close> changes its argument cannot be read off a function on
  values, so here it runs on a store: an object or array lives at an address and is
  the list of its own enumerable properties, a value is a primitive or a reference,
  \<^verbatim>\<open>{ ...v }\<close> and \<^verbatim>\<open>{}\<close> allocate the next address, and an assignment \<^verbatim>\<open>o.k = v\<close>
  changes the object at the address of \<open>o\<close>. The recursion of the source follows
  references, which may form a cycle in a store, so the model counts the depth that
  is left: it gives \<open>None\<close> when the depth runs out, and on a reference to an
  address that holds nothing, which no run of the program produces.
\<close>

datatype hval = HUndef | HNull | HBool bool | HNum string | HStr string | HRef nat

type_synonym hobj = "(string \<times> hval) list"

type_synonym heap = "hobj list"

text \<open>\<^verbatim>\<open>o.k\<close>, \<^verbatim>\<open>o.k = v\<close> and truthiness.\<close>

definition h_get :: "heap \<Rightarrow> nat \<Rightarrow> string \<Rightarrow> hval" where
  "h_get h a k = (case map_of (h ! a) k of Some v \<Rightarrow> v | None \<Rightarrow> HUndef)"

definition h_set :: "heap \<Rightarrow> nat \<Rightarrow> string \<Rightarrow> hval \<Rightarrow> heap" where
  "h_set h a k v = h[a := AList.update k v (h ! a)]"

text \<open>
  \<^verbatim>\<open>o[key] = v\<close> on an object made as \<^verbatim>\<open>{}\<close> and only assigned to since: under the key
  \<^verbatim>\<open>__proto__\<close> the setter of \<^verbatim>\<open>Object.prototype\<close> runs, which sets the prototype of the
  object (when the value is an object or null) and makes no property. The store
  holds own properties; the function never reads through the prototype of an object
  it has made.
\<close>

definition h_assign :: "heap \<Rightarrow> nat \<Rightarrow> string \<Rightarrow> hval \<Rightarrow> heap" where
  "h_assign h a k v = (if k = ''__proto__'' then h else h_set h a k v)"

fun h_truthy :: "hval \<Rightarrow> bool" where
  "h_truthy HUndef = False"
| "h_truthy HNull = False"
| "h_truthy (HBool b) = b"
| "h_truthy (HNum n) = (n \<noteq> ''0'' \<and> n \<noteq> ''NaN'')"
| "h_truthy (HStr s) = (s \<noteq> [])"
| "h_truthy (HRef a) = True"

text \<open>
  The loop of lines 140 to 142 over the keys that are left; \<open>recur\<close> is the recursive
  call of \<^verbatim>\<open>normalizeSchema\<close>.
\<close>

fun normalize_props ::
  "(heap \<Rightarrow> hval \<Rightarrow> (heap \<times> hval) option) \<Rightarrow> heap \<Rightarrow> nat \<Rightarrow> nat \<Rightarrow> string list \<Rightarrow> heap option" where
  "normalize_props recur h normalizedProps props [] = Some h"
| "normalize_props recur h normalizedProps props (key # keys) =
     (case recur h (h_get h props key) of
        None \<Rightarrow> None
      | Some (h', v) \<Rightarrow> normalize_props recur (h_assign h' normalizedProps key v) normalizedProps props keys)"

text \<open>
  Lines 125 to 150 on the object at address \<open>a\<close>, statement by statement: the copy,
  the branch for \<^verbatim>\<open>type === 'object'\<close>, then the branch for \<^verbatim>\<open>type === 'array'\<close>.
\<close>

definition normalize_node ::
  "(heap \<Rightarrow> hval \<Rightarrow> (heap \<times> hval) option) \<Rightarrow> heap \<Rightarrow> nat \<Rightarrow> (heap \<times> hval) option" where
  "normalize_node recur h a =
     (let normalized = length h;
          h1 = h @ [h ! a]
      in case
           (if h_get h1 normalized ''type'' = HStr ''object'' then
              let (h2, props) =
                    (case h_get h1 normalized ''properties'' of
                       HRef p \<Rightarrow> (h1, p)
                     | _ \<Rightarrow> (h1 @ [[]], length h1));
                  propKeys = map fst (h2 ! props);
                  h3 = (if length propKeys = 0
                           \<and> h_get h2 normalized ''additionalProperties'' = HBool False
                        then h_set h2 normalized ''additionalProperties'' (HBool True)
                        else h2);
                  normalizedProps = length h3;
                  h4 = h3 @ [[]]
              in if props < length h2 then
                   (case normalize_props recur h4 normalizedProps props propKeys of
                      None \<Rightarrow> None
                    | Some h5 \<Rightarrow> Some (h_set h5 normalized ''properties'' (HRef normalizedProps)))
                 else None
            else Some h1) of
           None \<Rightarrow> None
         | Some h6 \<Rightarrow>
             (if h_get h6 normalized ''type'' = HStr ''array'' \<and> h_truthy (h_get h6 normalized ''items'') then
                (case recur h6 (h_get h6 normalized ''items'') of
                   None \<Rightarrow> None
                 | Some (h7, items) \<Rightarrow> Some (h_set h7 normalized ''items'' items, HRef normalized))
              else Some (h6, HRef normalized)))"

text \<open>\<^verbatim>\<open>normalizeSchema\<close> with \<open>depth\<close> nested calls left.\<close>

primrec normalizeSchema_h :: "nat \<Rightarrow> heap \<Rightarrow> hval \<Rightarrow> (heap \<times> hval) option" where
  "normalizeSchema_h 0 h schemaNode = None"
| "normalizeSchema_h (Suc depth) h schemaNode =
     (case schemaNode of
        HRef a \<Rightarrow> if a < length h then normalize_node (normalizeSchema_h depth) h a else None
      | _ \<Rightarrow> Some (h, schemaNode))"

text \<open>
  The value \<open>v\<close> nests objects at most \<open>k\<close> deep, all of them at addresses below
  \<open>n\<close>: what a parsed document is in a store, where no object contains itself.
\<close>

primrec nested_within :: "nat \<Rightarrow> heap \<Rightarrow> nat \<Rightarrow> hval \<Rightarrow> bool" where
  "nested_within 0 h n v = (case v of HRef a \<Rightarrow> False | _ \<Rightarrow> True)"
| "nested_within (Suc k) h n v =
     (case v of
        HRef a \<Rightarrow> a < n \<and> (\<forall>c \<in> snd ` set (h ! a). nested_within k h n c)
      | _ \<Rightarrow> True)"

section \<open>Worked inputs\<close>

text \<open>
  The legacy record of scenario A of the specification,
  \<^verbatim>\<open>{name:"search", alias:"web_search", description:"d", config:{schema:{type:"object",
  properties:{}, additionalProperties:false}}}\<close>, and what \<^verbatim>\<open>convertTools\<close> makes of it.
\<close>

definition scenario_A_tool :: json where
  "scenario_A_tool =
     JObj [(''name'', JStr ''search''), (''alias'', JStr ''web_search''), (''description'', JStr ''d''),
           (''config'', JObj [(''schema'', JObj [(''type'', JStr ''object''),
                                                 (''properties'', JObj []),
                                                 (''additionalProperties'', JBool False)])])]"

definition scenario_A_converted :: json where
  "scenario_A_converted =
     JObj [(''type'', JStr ''function''),
           (''function'', JObj [(''name'', JStr ''web_search''),
                                (''description'', JStr ''d''),
                                (''parameters'', JObj [(''type'', JStr ''object''),
                                                       (''properties'', JObj []),
                                                       (''additionalProperties'', JBool True)])])]"

text \<open>A record in target shape whose schema the guardrail would change.\<close>

definition target_tool_example :: json where
  "target_tool_example =
     JObj [(''type'', JStr ''function''),
           (''function'', JObj [(''name'', JStr ''f''),
                                (''parameters'', JObj [(''type'', JStr ''object''),
                                                       (''additionalProperties'', JBool False)])])]"


text \<open>A user message whose content is white space only, and a message of role \<^verbatim>\<open>tool\<close>.\<close>

definition blank_user_message :: json where
  "blank_user_message = JObj [(''role'', JStr ''user''), (''content'', JStr [CHR '' '', CHR 0x0A, CHR '' ''])]"

definition plain_tool_message :: json where
  "plain_tool_message =
     JObj [(''role'', JStr ''tool''), (''tool_call_id'', JStr ''call_1''), (''content'', JStr ''result'')]"

text \<open>
  The transcript of scenario B of the specification: an assistant message with one
  call that has no identifier, then a message of an unknown role with the node type
  \<^verbatim>\<open>tool\<close>.
\<close>

definition scenario_B_messages :: "json list" where
  "scenario_B_messages =
     [JObj [(''role'', JStr ''assistant''),
            (''tool_calls'', JArr [JObj [(''name'', JStr ''search''),
                                         (''args'', JObj [(''q'', JStr ''x'')])]])],
      JObj [(''role'', JStr ''tool_node''),
            (''additional_kwargs'', JObj [(''node_metadata'', JObj [(''nodeType'', JStr ''tool'')])]),
            (''content'', JStr ''result'')]]"

text \<open>The same transcript with an identifier on the call.\<close>

definition identified_messages :: "json list" where
  "identified_messages =
     [JObj [(''role'', JStr ''assistant''),
            (''tool_calls'', JArr [JObj [(''id'', JStr ''call_a''),
                                         (''name'', JStr ''search''),
                                         (''args'', JObj [(''q'', JStr ''x'')])]])],
      JObj [(''role'', JStr ''tool_node''),
            (''additional_kwargs'', JObj [(''node_metadata'', JObj [(''nodeType'', JStr ''tool'')])]),
            (''content'', JStr ''result'')]]"

text \<open>
  An assistant message with two identified calls, answered by the two messages of
  unknown role that follow it, and a user message.
\<close>

definition two_call_messages :: "json list" where
  "two_call_messages =
     [JObj [(''role'', JStr ''assistant''),
            (''tool_calls'', JArr [JObj [(''id'', JStr ''call_a''), (''name'', JStr ''search'')],
                                   JObj [(''id'', JStr ''call_b''), (''name'', JStr ''search'')]])],
      JObj [(''role'', JStr ''node''), (''content'', JStr ''first'')],
      JObj [(''role'', JStr ''node''), (''content'', JStr ''second'')],
      JObj [(''role'', JStr ''user''), (''content'', JStr ''thanks'')]]"

definition two_call_converted :: "json list" where
  "two_call_converted =
     [JObj [(''role'', JStr ''assistant''), (''content'', JStr []),
            (''tool_calls'',
             JArr [JObj [(''id'', JStr ''call_a''), (''type'', JStr ''function''),
                         (''function'', JObj [(''name'', JStr ''search''), (''arguments'', JStr ''{}'')])],
                   JObj [(''id'', JStr ''call_b''), (''type'', JStr ''function''),
                         (''function'', JObj [(''name'', JStr ''search''), (''arguments'', JStr ''{}'')])]])],
      JObj [(''role'', JStr ''tool''), (''tool_call_id'', JStr ''call_a''), (''content'', JStr ''first'')],
      JObj [(''role'', JStr ''tool''), (''tool_call_id'', JStr ''call_b''), (''content'', JStr ''second'')],
      JObj [(''role'', JStr ''user''), (''content'', JStr ''thanks'')]]"

text \<open>
  A store with the schema
  \<^verbatim>\<open>{type:"object", additionalProperties:false, properties:{a:{type:"array", items:{type:"object", additionalProperties:false}}}}\<close>
  at address 0.
\<close>

definition example_heap :: heap where
  "example_heap =
     [[(''type'', HStr ''object''), (''additionalProperties'', HBool False), (''properties'', HRef 1)],
      [(''a'', HRef 2)],
      [(''type'', HStr ''array''), (''items'', HRef 3)],
      [(''type'', HStr ''object''), (''additionalProperties'', HBool False)]]"

definition example_heap_normalized :: heap where
  "example_heap_normalized =
     example_heap @
     [[(''type'', HStr ''object''), (''additionalProperties'', HBool False), (''properties'', HRef 5)],
      [(''a'', HRef 6)],
      [(''type'', HStr ''array''), (''items'', HRef 7)],
      [(''type'', HStr ''object''), (''additionalProperties'', HBool True), (''properties'', HRef 9)],
      [],
      []]"




section \<open>Properties of the tool normalizer\<close>

text \<open>A schema node of type \<^verbatim>\<open>"object"\<close>, and its properties map as line 128 reads it.\<close>

definition object_typed :: "json \<Rightarrow> bool" where
  "object_typed s \<longleftrightarrow> field s ''type'' = Some (JStr ''object'')"

definition array_typed :: "json \<Rightarrow> bool" where
  "array_typed s \<longleftrightarrow> field s ''type'' = Some (JStr ''array'')"

definition properties_map :: "json \<Rightarrow> (string \<times> json) list" where
  "properties_map s =
     (case field s ''properties'' of
        Some p \<Rightarrow> if is_object p then own_entries p else []
      | None \<Rightarrow> [])"



lemma field_Some_is_object: "field s k = Some v \<Longrightarrow> is_object s"
  by (cases s) (simp_all add: field_def)


lemma normalizeSchema_object:
  assumes "object_typed s"
  shows "normalizeSchema s =
    JObj (AList.update ''properties''
            (JObj (assigned_entries (map (\<lambda>(key, v). (key, normalizeSchema v)) (properties_map s))))
            (if properties_map s = [] \<and> field s ''additionalProperties'' = Some (JBool False)
             then AList.update ''additionalProperties'' (JBool True) (own_entries s)
             else own_entries s))"
proof -
  from assms have obj: "is_object s" and ty: "map_of (own_entries s) ''type'' = Some (JStr ''object'')"
    by (auto simp: object_typed_def field_def intro: field_Some_is_object [unfolded field_def])
  show ?thesis
    by (subst normalizeSchema.simps)
       (simp add: obj ty Let_def properties_map_def field_def split: option.splits)
qed

lemma normalizeSchema_array:
  assumes "array_typed s" and "field s ''items'' = Some items" and "truthy (Some items)"
  shows "normalizeSchema s = JObj (AList.update ''items'' (normalizeSchema items) (own_entries s))"
proof -
  from assms have obj: "is_object s" and ty: "map_of (own_entries s) ''type'' = Some (JStr ''array'')"
    by (auto simp: array_typed_def field_def intro: field_Some_is_object [unfolded field_def])
  from assms have it: "map_of (own_entries s) ''items'' = Some items"
    by (simp add: field_def)
  show ?thesis
    using assms(3) by (subst normalizeSchema.simps) (simp add: obj ty it Let_def)
qed

lemma normalizeSchema_other:
  assumes "is_object s" and "\<not> object_typed s" and "\<not> (array_typed s \<and> truthy (field s ''items''))"
  shows "normalizeSchema s = JObj (own_entries s)"
  using assms
  by (subst normalizeSchema.simps)
     (auto simp: object_typed_def array_typed_def field_def Let_def split: option.splits)

lemma field_update: "field (JObj (AList.update k v kvs)) k' = (if k' = k then Some v else map_of kvs k')"
  by (simp add: field_def update_conv')





lemma object_typed_normalizeSchema: "object_typed s \<Longrightarrow> object_typed (normalizeSchema s)"
  by (simp add: normalizeSchema_object) (simp add: object_typed_def field_update field_def update_conv')



text \<open>
  The source has two \<^verbatim>\<open>if\<close>s in a row where the definition has an \<open>else\<close>: run in a
  row on the copy, they give what the definition gives.
\<close>

lemma normalizeSchema_two_ifs:
  assumes "is_object s"
  shows "normalizeSchema s =
     (let normalized =
            (if object_typed s then
               JObj (AList.update ''properties''
                       (JObj (assigned_entries
                                (map (\<lambda>(key, v). (key, normalizeSchema v)) (properties_map s))))
                       (if properties_map s = [] \<and> field s ''additionalProperties'' = Some (JBool False)
                        then AList.update ''additionalProperties'' (JBool True) (own_entries s)
                        else own_entries s))
             else JObj (own_entries s))
      in if array_typed normalized \<and> truthy (field normalized ''items'') then
           (case field normalized ''items'' of
              Some items \<Rightarrow> JObj (AList.update ''items'' (normalizeSchema items) (own_entries normalized))
            | None \<Rightarrow> normalized)
         else normalized)"
proof (cases "object_typed s")
  case True
  then have "\<not> array_typed (normalizeSchema s)"
    using object_typed_normalizeSchema [OF True] by (simp add: object_typed_def array_typed_def)
  with True show ?thesis by (simp add: normalizeSchema_object [symmetric] Let_def)
next
  case False
  have f: "field (JObj (own_entries s)) k = field s k" for k by (simp add: field_def)
  show ?thesis
  proof (cases "array_typed s \<and> truthy (field s ''items'')")
    case True
    then obtain items where i: "field s ''items'' = Some items" and t: "truthy (Some items)"
      by (cases "field s ''items''") auto
    from True have a: "array_typed s" by simp
    from normalizeSchema_array [OF a i t] False a i t show ?thesis
      by (simp add: Let_def array_typed_def f)
  next
    case nt: False
    from normalizeSchema_other [OF assms False nt] False nt show ?thesis
      by (auto simp: Let_def array_typed_def f)
  qed
qed

text \<open>
  C3. For a schema node of type \<^verbatim>\<open>"object"\<close>: when its properties map is empty or
  absent and its \<^verbatim>\<open>additionalProperties\<close> is \<^verbatim>\<open>false\<close>, the node that
  \<^verbatim>\<open>normalizeSchema\<close> returns has \<^verbatim>\<open>additionalProperties\<close> equal to \<^verbatim>\<open>true\<close>; when its
  properties map is not empty, the returned node has the \<^verbatim>\<open>additionalProperties\<close> of the
  input.
\<close>

theorem normalizeSchema_guardrail:
  assumes "object_typed s"
  shows "(properties_map s = [] \<and> field s ''additionalProperties'' = Some (JBool False)
            \<longrightarrow> field (normalizeSchema s) ''additionalProperties'' = Some (JBool True))
       \<and> (properties_map s \<noteq> []
            \<longrightarrow> field (normalizeSchema s) ''additionalProperties'' = field s ''additionalProperties'')"
proof (intro conjI impI)
  assume "properties_map s = [] \<and> field s ''additionalProperties'' = Some (JBool False)"
  with assms show "field (normalizeSchema s) ''additionalProperties'' = Some (JBool True)"
    by (simp add: normalizeSchema_object field_update update_conv')
next
  assume "properties_map s \<noteq> []"
  with assms show "field (normalizeSchema s) ''additionalProperties'' = field s ''additionalProperties''"
    by (simp add: normalizeSchema_object field_update) (simp add: field_def)
qed

theorem normalizeSchema_guardrail_witness:
  "field (normalizeSchema (JObj [(''type'', JStr ''object''), (''additionalProperties'', JBool False)]))
     ''additionalProperties'' = Some (JBool True)
   \<and> field (normalizeSchema (JObj [(''type'', JStr ''object''), (''properties'', JObj []),
                                    (''additionalProperties'', JBool False)]))
     ''additionalProperties'' = Some (JBool True)
   \<and> field (normalizeSchema (JObj [(''type'', JStr ''object''),
                                    (''properties'', JObj [(''q'', JObj [(''type'', JStr ''string'')])]),
                                    (''additionalProperties'', JBool False)]))
     ''additionalProperties'' = Some (JBool False)"
  using normalizeSchema_guardrail [of "JObj [(''type'', JStr ''object''), (''additionalProperties'', JBool False)]"]
    normalizeSchema_guardrail [of "JObj [(''type'', JStr ''object''), (''properties'', JObj []),
                                    (''additionalProperties'', JBool False)]"]
    normalizeSchema_guardrail [of "JObj [(''type'', JStr ''object''),
                                    (''properties'', JObj [(''q'', JObj [(''type'', JStr ''string'')])]),
                                    (''additionalProperties'', JBool False)]"]
  by (simp add: object_typed_def properties_map_def field_def)




lemma convertTools_length: "convertTools tools = Inr out \<Longrightarrow> length out = length tools"
  by (induction tools arbitrary: out) (auto split: sum.splits)

lemma convertTools_nth:
  "convertTools tools = Inr out \<Longrightarrow> i < length tools \<Longrightarrow> convertTool (tools ! i) = Inr (out ! i)"
proof (induction tools arbitrary: out i)
  case Nil
  then show ?case by simp
next
  case (Cons tool rest)
  then show ?case by (cases i) (auto split: sum.splits)
qed

lemma target_shaped_not_null: "target_shaped tool \<Longrightarrow> tool \<noteq> JNull"
  by (auto simp: target_shaped_def field_def)

text \<open>
  C6. A tool record already in target shape (\<^verbatim>\<open>type === "function"\<close> and a truthy
  \<^verbatim>\<open>function\<close>) is returned by \<^verbatim>\<open>convertTools\<close> as it is, its schema not normalized:
  a list of such records converts to itself, and in any list that converts, the
  output element at the place of such a record is that record.
\<close>

theorem convertTools_pass_through:
  "(list_all target_shaped tools \<longrightarrow> convertTools tools = Inr tools)
   \<and> (convertTools tools = Inr out \<and> i < length tools \<and> target_shaped (tools ! i)
        \<longrightarrow> out ! i = tools ! i)"
proof (intro conjI impI)
  assume "list_all target_shaped tools"
  then show "convertTools tools = Inr tools"
    by (induction tools) (auto simp: convertTool_def dest: target_shaped_not_null)
next
  assume a: "convertTools tools = Inr out \<and> i < length tools \<and> target_shaped (tools ! i)"
  then have "convertTool (tools ! i) = Inr (out ! i)" by (simp add: convertTools_nth)
  moreover from a have "convertTool (tools ! i) = Inr (tools ! i)"
    by (auto simp: convertTool_def dest: target_shaped_not_null)
  ultimately show "out ! i = tools ! i" by simp
qed

theorem convertTools_pass_through_witness:
  "list_all target_shaped [target_tool_example]
   \<and> convertTools [target_tool_example] = Inr [target_tool_example]
   \<and> convertTools [scenario_A_tool, target_tool_example] = Inr [scenario_A_converted, target_tool_example]
   \<and> target_shaped ([scenario_A_tool, target_tool_example] ! 1)
   \<and> [scenario_A_converted, target_tool_example] ! 1 = [scenario_A_tool, target_tool_example] ! 1"
proof -
  have h1: "list_all target_shaped [target_tool_example]" by code_simp
  have h2: "convertTools [scenario_A_tool, target_tool_example]
              = Inr [scenario_A_converted, target_tool_example]
            \<and> (1::nat) < length [scenario_A_tool, target_tool_example]
            \<and> target_shaped ([scenario_A_tool, target_tool_example] ! 1)" by code_simp
  note t = convertTools_pass_through [of "[target_tool_example]"]
  note u = convertTools_pass_through
    [of "[scenario_A_tool, target_tool_example]" "[scenario_A_converted, target_tool_example]" 1]
  from t h1 have "convertTools [target_tool_example] = Inr [target_tool_example]" by blast
  moreover from u h2
  have "[scenario_A_converted, target_tool_example] ! 1 = [scenario_A_tool, target_tool_example] ! 1"
    by blast
  ultimately show ?thesis using h1 h2 by blast
qed
















section \<open>Properties of the name resolver\<close>














section \<open>Properties of the message reconstructor\<close>

text \<open>The two kinds of output message that carry tool call identifiers.\<close>

definition is_tool_response :: "json \<Rightarrow> bool" where
  "is_tool_response m \<longleftrightarrow>
     field m ''role'' = Some (JStr ''tool'') \<and> field m ''tool_call_id'' \<noteq> None"

definition is_assistant_with_calls :: "json \<Rightarrow> bool" where
  "is_assistant_with_calls m \<longleftrightarrow>
     field m ''role'' = Some (JStr ''assistant'')
     \<and> (case field m ''tool_calls'' of Some (JArr calls) \<Rightarrow> True | _ \<Rightarrow> False)"

lemma trim_empty_iff: "trim s = [] \<longleftrightarrow> list_all is_space s"
proof
  assume "trim s = []"
  then have "\<forall>c \<in> set (dropWhile is_space s). is_space c"
    by (simp add: trim_def dropWhile_eq_Nil_conv)
  then have "dropWhile is_space s = []"
    using hd_dropWhile [of is_space s] hd_in_set [of "dropWhile is_space s"] by blast
  then show "list_all is_space s"
    by (simp add: dropWhile_eq_Nil_conv list_all_iff)
next
  assume "list_all is_space s"
  then show "trim s = []"
    by (auto simp: trim_def list_all_iff dest: set_dropWhileD)
qed

lemma blank_iff: "(content = [] \<or> trim content = []) \<longleftrightarrow> list_all is_space content"
  by (auto simp: trim_empty_iff)

lemma convertMessage_with_calls:
  assumes "msg \<noteq> JNull" and "convertMessageContent (field msg ''content'') = Inr content"
    and "assistant_calls msg = Some calls"
  shows "convertMessage now toolNameMap inputMessages i pending msg =
     (case convertToolCalls now toolNameMap inputMessages i 0 calls of
        Inl e \<Rightarrow> Inl e
      | Inr (ids, normalizedToolCalls) \<Rightarrow>
          Inr (pending @ ids,
               [JObj [(''role'', JStr ''assistant''),
                      (''content'', JStr (content_or_empty content)),
                      (''tool_calls'', JArr normalizedToolCalls)]]))"
  using assms by (simp add: convertMessage_def)

lemma convertMessage_tool_response:
  assumes "msg \<noteq> JNull" and "convertMessageContent (field msg ''content'') = Inr content"
    and "assistant_calls msg = None" and "decide_role msg pending = ToolResponse toolCallId rest"
  shows "convertMessage now toolNameMap inputMessages i pending msg =
     Inr (rest, [JObj [(''role'', JStr ''tool''),
                       (''tool_call_id'', toolCallId),
                       (''content'', JStr (content_or_empty content))]])"
  using assms by (simp add: convertMessage_def)

lemma convertMessage_generic:
  assumes "msg \<noteq> JNull" and "convertMessageContent (field msg ''content'') = Inr content"
    and "assistant_calls msg = None" and "decide_role msg pending = FinalRole finalRole"
  shows "convertMessage now toolNameMap inputMessages i pending msg =
     Inr (pending,
          if list_all is_space content then []
          else [JObj [(''role'', finalRole), (''content'', JStr content)]])"
  using assms by (simp add: convertMessage_def blank_iff)

lemma convertMessage_null: "convertMessage now toolNameMap inputMessages i pending JNull = Inl TypeError"
  by (simp add: convertMessage_def)

lemma shift_or_ToolResponse:
  "shift_or pending role = ToolResponse toolCallId rest \<Longrightarrow> pending = toolCallId # rest"
  by (cases pending) (simp_all add: shift_or_def)

lemma decide_role_ToolResponse:
  "decide_role msg pending = ToolResponse toolCallId rest \<Longrightarrow> pending = toolCallId # rest"
  by (auto simp: decide_role_def Let_def split: if_splits dest: shift_or_ToolResponse)

text \<open>
  C8. A message whose normalized content is empty or white space only puts nothing on
  the output, unless it is emitted as a tool response or as an assistant message
  with tool calls.
\<close>

theorem convertMessage_drops_blank:
  assumes "convertMessage now toolNameMap inputMessages i pending msg = Inr (pending', pushed)"
    and "convertMessageContent (field msg ''content'') = Inr content"
    and "list_all is_space content"
  shows "pushed = [] \<or> (\<exists>m. pushed = [m] \<and> (is_tool_response m \<or> is_assistant_with_calls m))"
proof -
  from assms(1) have nn: "msg \<noteq> JNull" by (auto simp: convertMessage_null)
  show ?thesis
  proof (cases "assistant_calls msg")
    case (Some calls)
    from assms(1) show ?thesis
      unfolding convertMessage_with_calls [OF nn assms(2) Some]
      by (auto simp: is_assistant_with_calls_def field_def split: sum.splits)
  next
    case None
    show ?thesis
    proof (cases "decide_role msg pending")
      case (ToolResponse toolCallId rest)
      from assms(1) show ?thesis
        unfolding convertMessage_tool_response [OF nn assms(2) None ToolResponse]
        by (auto simp: is_tool_response_def field_def)
    next
      case (FinalRole finalRole)
      from assms(1,3) show ?thesis
        unfolding convertMessage_generic [OF nn assms(2) None FinalRole]
        by simp
    qed
  qed
qed

theorem convertMessage_drops_blank_witness:
  "convertMessage (\<lambda>i idx. 0) empty_name_map [blank_user_message] 0 [JStr ''call_1''] blank_user_message
     = Inr ([JStr ''call_1''], [])
   \<and> convertMessageContent (field blank_user_message ''content'') = Inr [CHR '' '', CHR 0x0A, CHR '' '']
   \<and> list_all is_space [CHR '' '', CHR 0x0A, CHR '' '']
   \<and> ([] = ([] :: json list)
        \<or> (\<exists>m. [] = [m] \<and> (is_tool_response m \<or> is_assistant_with_calls m)))"
proof -
  have h1: "convertMessage (\<lambda>i idx. 0) empty_name_map [blank_user_message] 0 [JStr ''call_1''] blank_user_message
     = Inr ([JStr ''call_1''], [])" by code_simp
  have h2: "convertMessageContent (field blank_user_message ''content'') = Inr [CHR '' '', CHR 0x0A, CHR '' '']"
    by code_simp
  have h3: "list_all is_space [CHR '' '', CHR 0x0A, CHR '' '']" by code_simp
  from convertMessage_drops_blank [OF h1 h2 h3] h1 h2 h3 show ?thesis by blast
qed

text \<open>
  C10. A message whose role is already \<^verbatim>\<open>tool\<close> never takes an identifier from the
  pending queue: the queue is as it was, and the message goes on the output only when
  its normalized content is not empty and not white space only, as
  \<^verbatim>\<open>{role: "tool", content}\<close> with no \<^verbatim>\<open>tool_call_id\<close>.
\<close>

theorem convertMessage_role_tool:
  assumes "field msg ''role'' = Some (JStr ''tool'')"
    and "convertMessageContent (field msg ''content'') = Inr content"
  shows "\<exists>pushed. convertMessage now toolNameMap inputMessages i pending msg = Inr (pending, pushed)
           \<and> pushed = (if list_all is_space content then []
                        else [JObj [(''role'', JStr ''tool''), (''content'', JStr content)]])
           \<and> list_all (\<lambda>m. field m ''tool_call_id'' = None) pushed"
proof -
  from assms(1) have nn: "msg \<noteq> JNull" by (auto simp: field_def)
  from assms(1) have ac: "assistant_calls msg = None" by (simp add: assistant_calls_def)
  from assms(1) have dr: "decide_role msg pending = FinalRole (JStr ''tool'')"
    by (simp add: decide_role_def isValidRole_def allowedRoles_def Let_def)
  show ?thesis
    unfolding convertMessage_generic [OF nn assms(2) ac dr]
    by (simp add: field_def)
qed

theorem convertMessage_role_tool_witness:
  "field plain_tool_message ''role'' = Some (JStr ''tool'')
   \<and> convertMessageContent (field plain_tool_message ''content'') = Inr ''result''
   \<and> convertMessage (\<lambda>i idx. 0) empty_name_map [plain_tool_message] 0 [JStr ''call_1''] plain_tool_message
       = Inr ([JStr ''call_1''], [JObj [(''role'', JStr ''tool''), (''content'', JStr ''result'')]])"
proof -
  have h1: "field plain_tool_message ''role'' = Some (JStr ''tool'')" by code_simp
  have h2: "convertMessageContent (field plain_tool_message ''content'') = Inr ''result''" by code_simp
  have h3: "\<not> list_all is_space ''result''" by code_simp
  from convertMessage_role_tool [OF h1 h2, of "\<lambda>i idx. 0" empty_name_map "[plain_tool_message]" 0 "[JStr ''call_1'']"] h3
  have "convertMessage (\<lambda>i idx. 0) empty_name_map [plain_tool_message] 0 [JStr ''call_1''] plain_tool_message
       = Inr ([JStr ''call_1''], [JObj [(''role'', JStr ''tool''), (''content'', JStr ''result'')]])"
    by simp
  with h1 h2 show ?thesis by blast
qed

text \<open>
  The identifiers that the tool responses of an output carry, and the identifiers of
  the calls of its assistant messages, both in output order.
\<close>

definition response_ids :: "json list \<Rightarrow> json list" where
  "response_ids out =
     concat (map (\<lambda>m. case field m ''tool_call_id'' of Some toolCallId \<Rightarrow> [toolCallId] | None \<Rightarrow> []) out)"

definition ids_of_calls :: "json list \<Rightarrow> json list" where
  "ids_of_calls calls =
     concat (map (\<lambda>c. case field c ''id'' of Some callId \<Rightarrow> [callId] | None \<Rightarrow> []) calls)"

definition call_ids :: "json list \<Rightarrow> json list" where
  "call_ids out =
     concat (map (\<lambda>m. case field m ''tool_calls'' of Some (JArr calls) \<Rightarrow> ids_of_calls calls | _ \<Rightarrow> []) out)"

lemma response_ids_append: "response_ids (xs @ ys) = response_ids xs @ response_ids ys"
  by (simp add: response_ids_def)

lemma call_ids_append: "call_ids (xs @ ys) = call_ids xs @ call_ids ys"
  by (simp add: call_ids_def)

lemma response_ids_Nil: "response_ids [] = []"
  by (simp add: response_ids_def)

lemma call_ids_Nil: "call_ids [] = []"
  by (simp add: call_ids_def)

lemma convertToolCall_id:
  "convertToolCall now toolNameMap inputMessages i idx call = Inr (callId, c) \<Longrightarrow> field c ''id'' = Some callId"
  by (auto simp: convertToolCall_def Let_def field_def split: if_splits sum.splits prod.splits)

lemma convertToolCalls_ids:
  "convertToolCalls now toolNameMap inputMessages i idx calls = Inr (ids, cs) \<Longrightarrow> ids_of_calls cs = ids"
proof (induction calls arbitrary: idx ids cs)
  case Nil
  then show ?case by (simp add: ids_of_calls_def)
next
  case (Cons call calls)
  from Cons.prems obtain callId c ids' cs' where
    1: "convertToolCall now toolNameMap inputMessages i idx call = Inr (callId, c)"
    and 2: "convertToolCalls now toolNameMap inputMessages i (Suc idx) calls = Inr (ids', cs')"
    and 3: "ids = callId # ids'" "cs = c # cs'"
    by (auto split: sum.splits prod.splits)
  from Cons.IH [OF 2] have "ids_of_calls cs' = ids'" .
  with convertToolCall_id [OF 1] 3 show ?case by (simp add: ids_of_calls_def)
qed

text \<open>What one turn of the loop does to the two lists and to the queue.\<close>

lemma convertMessage_queue:
  assumes "convertMessage now toolNameMap inputMessages i pending msg = Inr (pending', pushed)"
  shows "length pushed \<le> 1 \<and> pending @ call_ids pushed = response_ids pushed @ pending'"
proof -
  from assms have nn: "msg \<noteq> JNull" by (auto simp: convertMessage_null)
  from assms obtain content where ct: "convertMessageContent (field msg ''content'') = Inr content"
    by (auto simp: convertMessage_def split: if_splits sum.splits)
  show ?thesis
  proof (cases "assistant_calls msg")
    case (Some calls)
    from assms obtain ids cs where
      cc: "convertToolCalls now toolNameMap inputMessages i 0 calls = Inr (ids, cs)"
      and p: "pending' = pending @ ids"
      and q: "pushed = [JObj [(''role'', JStr ''assistant''),
                      (''content'', JStr (content_or_empty content)),
                      (''tool_calls'', JArr cs)]]"
      unfolding convertMessage_with_calls [OF nn ct Some]
      by (auto split: sum.splits prod.splits)
    from convertToolCalls_ids [OF cc] p q show ?thesis
      by (simp add: call_ids_def response_ids_def field_def)
  next
    case None
    show ?thesis
    proof (cases "decide_role msg pending")
      case (ToolResponse toolCallId rest)
      from assms decide_role_ToolResponse [OF ToolResponse] show ?thesis
        unfolding convertMessage_tool_response [OF nn ct None ToolResponse]
        by (auto simp: call_ids_def response_ids_def field_def)
    next
      case (FinalRole finalRole)
      from assms show ?thesis
        unfolding convertMessage_generic [OF nn ct None FinalRole]
        by (auto simp: call_ids_def response_ids_def field_def split: if_splits)
    qed
  qed
qed

text \<open>
  The invariant of the loop: the calls emitted so far are the ones answered so far
  followed by the pending queue, and this was so at every earlier point of the output.
\<close>

definition paired :: "json list \<Rightarrow> bool" where
  "paired out \<longleftrightarrow> (\<forall>n. prefix (response_ids (take n out)) (call_ids (take n out)))"

lemma paired_snoc:
  assumes "paired out" and "prefix (response_ids (out @ pushed)) (call_ids (out @ pushed))"
    and "length pushed \<le> 1"
  shows "paired (out @ pushed)"
  unfolding paired_def
proof
  fix n
  show "prefix (response_ids (take n (out @ pushed))) (call_ids (take n (out @ pushed)))"
  proof (cases "n \<le> length out")
    case True
    then have eq: "take n (out @ pushed) = take n out" by simp
    from assms(1) show ?thesis unfolding eq paired_def by blast
  next
    case False
    with assms(3) have "length (out @ pushed) \<le> n" by simp
    then have eq: "take n (out @ pushed) = out @ pushed" by (rule take_all)
    from assms(2) show ?thesis unfolding eq .
  qed
qed

lemma convertMessages_from_paired:
  "convertMessages_from now toolNameMap inputMessages i pending out = Inr final
   \<Longrightarrow> call_ids out = response_ids out @ pending \<Longrightarrow> paired out
   \<Longrightarrow> paired final"
proof (induction now toolNameMap inputMessages i pending out rule: convertMessages_from.induct)
  case (1 now toolNameMap inputMessages i pending out)
  show ?case
  proof (cases "i < length inputMessages")
    case False
    with "1.prems" show ?thesis by (simp add: convertMessages_from.simps)
  next
    case True
    with "1.prems"(1) obtain pending' pushed where
      s: "convertMessage now toolNameMap inputMessages i pending (inputMessages ! i) = Inr (pending', pushed)"
      and r: "convertMessages_from now toolNameMap inputMessages (i + 1) pending' (out @ pushed) = Inr final"
      by (subst (asm) convertMessages_from.simps) (auto split: sum.splits prod.splits)
    from convertMessage_queue [OF s] have len: "length pushed \<le> 1"
      and q: "pending @ call_ids pushed = response_ids pushed @ pending'" by simp_all
    have inv: "call_ids (out @ pushed) = response_ids (out @ pushed) @ pending'"
      using "1.prems"(2) q by (simp add: call_ids_append response_ids_append)
    then have "prefix (response_ids (out @ pushed)) (call_ids (out @ pushed))"
      by (simp add: prefix_def)
    with "1.prems"(3) len have pd: "paired (out @ pushed)" by (intro paired_snoc)
    show ?thesis by (rule "1.IH" [OF True s refl r inv pd])
  qed
qed

text \<open>
  C1. At every point of the output of \<^verbatim>\<open>convertMessages\<close>, the identifiers carried by
  the tool responses emitted so far are the first of the identifiers of the calls of
  the assistant messages emitted so far, in the same order: each was pushed by an
  earlier assistant message, each pushed identifier is taken at most once, and they
  are taken in the order in which they were pushed.
\<close>

theorem convertMessages_pairing:
  assumes "convertMessages now inputMessages toolNameMap = Inr out"
  shows "prefix (response_ids (take n out)) (call_ids (take n out))
       \<and> length (response_ids (take n out)) \<le> length (call_ids (take n out))
       \<and> (distinct (call_ids out) \<longrightarrow> distinct (response_ids out))"
proof -
  have e: "paired []" by (simp add: paired_def response_ids_Nil)
  have i: "call_ids [] = response_ids [] @ []" by (simp add: call_ids_Nil response_ids_Nil)
  from assms have "convertMessages_from now toolNameMap inputMessages 0 [] [] = Inr out"
    by (simp add: convertMessages_def)
  then have p: "paired out" using i e by (rule convertMessages_from_paired)
  then have 1: "prefix (response_ids (take n out)) (call_ids (take n out))"
    by (simp add: paired_def)
  from p have "prefix (response_ids (take (length out) out)) (call_ids (take (length out) out))"
    unfolding paired_def by blast
  then have "prefix (response_ids out) (call_ids out)" by simp
  then have 3: "distinct (call_ids out) \<longrightarrow> distinct (response_ids out)"
    by (auto simp: prefix_def)
  from 1 have 2: "length (response_ids (take n out)) \<le> length (call_ids (take n out))"
    by (rule prefix_length_le)
  from 1 2 3 show ?thesis by blast
qed

theorem convertMessages_pairing_witness:
  "convertMessages (\<lambda>i idx. 0) two_call_messages empty_name_map = Inr two_call_converted
   \<and> response_ids (take 2 two_call_converted) = [JStr ''call_a'']
   \<and> call_ids (take 2 two_call_converted) = [JStr ''call_a'', JStr ''call_b'']
   \<and> prefix (response_ids (take 2 two_call_converted)) (call_ids (take 2 two_call_converted))
   \<and> distinct (call_ids two_call_converted)
   \<and> distinct (response_ids two_call_converted)"
proof -
  have h: "convertMessages (\<lambda>i idx. 0) two_call_messages empty_name_map = Inr two_call_converted"
    by code_simp
  have r: "response_ids (take 2 two_call_converted) = [JStr ''call_a'']" by code_simp
  have c: "call_ids (take 2 two_call_converted) = [JStr ''call_a'', JStr ''call_b'']" by code_simp
  have d: "distinct (call_ids two_call_converted)" by code_simp
  from convertMessages_pairing [OF h, of 2] d
  have "prefix (response_ids (take 2 two_call_converted)) (call_ids (take 2 two_call_converted))
        \<and> distinct (response_ids two_call_converted)"
    by blast
  with h r c d show ?thesis by blast
qed

section \<open>Properties of the run\<close>

text \<open>Every call of an assistant message with calls carries an identifier of its own.\<close>

definition calls_identified :: "json \<Rightarrow> bool" where
  "calls_identified msg \<longleftrightarrow>
     (case assistant_calls msg of
        Some calls \<Rightarrow> list_all (\<lambda>call. truthy (field call ''id'')) calls
      | None \<Rightarrow> True)"

lemma or_else_truthy_eq: "truthy v \<Longrightarrow> or_else v d = or_else v d'"
  by (cases v) auto

lemma convertToolCall_clock:
  "truthy (field call ''id'')
   \<Longrightarrow> convertToolCall now toolNameMap inputMessages i idx call
       = convertToolCall now' toolNameMap inputMessages i idx call"
  unfolding convertToolCall_def
  using or_else_truthy_eq [of "field call ''id''" "JStr (synthesized_id now i idx)"
      "JStr (synthesized_id now' i idx)"]
  by simp

lemma convertToolCalls_clock:
  "list_all (\<lambda>call. truthy (field call ''id'')) calls
   \<Longrightarrow> convertToolCalls now toolNameMap inputMessages i idx calls
       = convertToolCalls now' toolNameMap inputMessages i idx calls"
proof (induction calls arbitrary: idx)
  case Nil
  then show ?case by simp
next
  case (Cons call calls)
  then have "convertToolCall now toolNameMap inputMessages i idx call
       = convertToolCall now' toolNameMap inputMessages i idx call"
    and "convertToolCalls now toolNameMap inputMessages i (Suc idx) calls
       = convertToolCalls now' toolNameMap inputMessages i (Suc idx) calls"
    by (simp_all add: convertToolCall_clock)
  then show ?case by (simp split: sum.splits prod.splits)
qed

lemma convertMessage_clock:
  assumes "calls_identified msg"
  shows "convertMessage now toolNameMap inputMessages i pending msg
       = convertMessage now' toolNameMap inputMessages i pending msg"
proof (cases "assistant_calls msg")
  case None
  then show ?thesis by (simp add: convertMessage_def split: sum.splits)
next
  case (Some calls)
  with assms have "convertToolCalls now toolNameMap inputMessages i 0 calls
       = convertToolCalls now' toolNameMap inputMessages i 0 calls"
    by (intro convertToolCalls_clock) (simp add: calls_identified_def)
  with Some show ?thesis by (simp add: convertMessage_def split: sum.splits)
qed

lemma convertMessages_from_clock:
  "list_all calls_identified inputMessages
   \<Longrightarrow> convertMessages_from now toolNameMap inputMessages i pending out
       = convertMessages_from now' toolNameMap inputMessages i pending out"
proof (induction now toolNameMap inputMessages i pending out rule: convertMessages_from.induct)
  case (1 now toolNameMap inputMessages i pending out)
  show ?case
  proof (cases "i < length inputMessages")
    case False
    then show ?thesis by (simp add: convertMessages_from.simps)
  next
    case True
    with "1.prems" have ci: "calls_identified (inputMessages ! i)"
      by (simp add: list_all_length)
    have eq: "convertMessage now toolNameMap inputMessages i pending (inputMessages ! i)
            = convertMessage now' toolNameMap inputMessages i pending (inputMessages ! i)"
      by (rule convertMessage_clock [OF ci])
    show ?thesis
    proof (cases "convertMessage now toolNameMap inputMessages i pending (inputMessages ! i)")
      case (Inl e)
      with eq have Inl': "convertMessage now' toolNameMap inputMessages i pending (inputMessages ! i) = Inl e"
        by simp
      have "convertMessages_from now toolNameMap inputMessages i pending out = Inl e"
        by (subst convertMessages_from.simps) (simp add: True Inl)
      moreover have "convertMessages_from now' toolNameMap inputMessages i pending out = Inl e"
        by (subst convertMessages_from.simps) (simp add: True Inl')
      ultimately show ?thesis by simp
    next
      case (Inr qp)
      obtain pending' pushed where qp: "qp = (pending', pushed)" by (cases qp)
      from eq Inr qp
      have Inr': "convertMessage now' toolNameMap inputMessages i pending (inputMessages ! i)
                    = Inr (pending', pushed)"
        by simp
      have rec: "convertMessages_from now toolNameMap inputMessages (i + 1) pending' (out @ pushed)
          = convertMessages_from now' toolNameMap inputMessages (i + 1) pending' (out @ pushed)"
        by (rule "1.IH" [OF True Inr qp [symmetric] "1.prems"])
      have "convertMessages_from now toolNameMap inputMessages i pending out
          = convertMessages_from now toolNameMap inputMessages (i + 1) pending' (out @ pushed)"
        by (subst convertMessages_from.simps) (simp add: True Inr qp)
      moreover have "convertMessages_from now' toolNameMap inputMessages i pending out
          = convertMessages_from now' toolNameMap inputMessages (i + 1) pending' (out @ pushed)"
        by (subst convertMessages_from.simps) (simp add: True Inr')
      ultimately show ?thesis using rec by simp
    qed
  qed
qed

text \<open>
  C5, as the code has it. \<^verbatim>\<open>convertTools\<close> and \<^verbatim>\<open>buildToolNameMap\<close> read nothing but
  their argument. \<^verbatim>\<open>convertMessages\<close> reads the clock for a call that has no identifier
  (line 263); when every call of every assistant message with calls carries an
  identifier, the run gives the same result whatever the clock reads.
\<close>

theorem pipeline_clock_independent:
  assumes "list_all calls_identified inputMessages"
  shows "pipeline now inputTools inputMessages = pipeline now' inputTools inputMessages"
  unfolding pipeline_def convertMessages_def
  by (simp add: convertMessages_from_clock [OF assms, of now _ _ _ _ now'] split: sum.splits)

theorem pipeline_clock_independent_witness:
  "list_all calls_identified identified_messages
   \<and> pipeline (\<lambda>i idx. 1) [scenario_A_tool] identified_messages
     = pipeline (\<lambda>i idx. 2) [scenario_A_tool] identified_messages"
proof -
  have h: "list_all calls_identified identified_messages" by code_simp
  from pipeline_clock_independent [OF h] h show ?thesis by blast
qed

text \<open>
  C5 as it is stated fails on the transcript of scenario B, whose call has no
  identifier: two runs that read different clocks give different outputs.
\<close>

theorem pipeline_deterministic_counterexample:
  "pipeline (\<lambda>i idx. 1) [scenario_A_tool] scenario_B_messages
   \<noteq> pipeline (\<lambda>i idx. 2) [scenario_A_tool] scenario_B_messages"
  by code_simp

section \<open>The store is left as it was\<close>

lemma prefix_snoc_same: "prefix h (h @ [x])"
  by (simp add: prefix_def)

lemma prefix_list_update:
  assumes "prefix h h1" and "length h \<le> a"
  shows "prefix h (h1[a := x])"
proof -
  from assms(1) obtain zs where "h1 = h @ zs" by (auto simp: prefix_def)
  with assms(2) have "h1[a := x] = h @ zs[a - length h := x]"
    by (simp add: list_update_append)
  then show ?thesis by (simp add: prefix_def)
qed

lemma prefix_h_set: "prefix h h1 \<Longrightarrow> length h \<le> a \<Longrightarrow> prefix h (h_set h1 a k v)"
  by (simp add: h_set_def prefix_list_update)

lemma length_h_set: "length (h_set h a k v) = length h"
  by (simp add: h_set_def)

lemma prefix_h_assign: "prefix h h1 \<Longrightarrow> length h \<le> a \<Longrightarrow> prefix h (h_assign h1 a k v)"
  by (simp add: h_assign_def prefix_h_set)

lemma length_h_assign: "length (h_assign h a k v) = length h"
  by (simp add: h_assign_def length_h_set)

definition framed :: "(heap \<Rightarrow> hval \<Rightarrow> (heap \<times> hval) option) \<Rightarrow> bool" where
  "framed recur \<longleftrightarrow> (\<forall>h v h' r. recur h v = Some (h', r) \<longrightarrow> prefix h h')"

lemma framedD: "framed recur \<Longrightarrow> recur h v = Some (h', r) \<Longrightarrow> prefix h h'"
  unfolding framed_def by blast

lemma normalize_props_frame:
  assumes "framed recur"
  shows "normalize_props recur h normalizedProps props keys = Some h'
         \<Longrightarrow> prefix h0 h \<Longrightarrow> length h0 \<le> normalizedProps \<Longrightarrow> prefix h0 h'"
proof (induction keys arbitrary: h)
  case Nil
  then show ?case by simp
next
  case (Cons key keys)
  from Cons.prems(1) obtain h1 v where
    r: "recur h (h_get h props key) = Some (h1, v)"
    and n: "normalize_props recur (h_assign h1 normalizedProps key v) normalizedProps props keys = Some h'"
    by (auto split: option.splits)
  from Cons.prems(2) framedD [OF assms r] have "prefix h0 h1" by (rule prefix_order.trans)
  then have "prefix h0 (h_assign h1 normalizedProps key v)" using Cons.prems(3) by (rule prefix_h_assign)
  from Cons.IH [OF n this Cons.prems(3)] show ?case .
qed

lemma normalize_props_length:
  assumes "framed recur"
  shows "normalize_props recur h normalizedProps props keys = Some h' \<Longrightarrow> length h \<le> length h'"
proof (induction keys arbitrary: h)
  case Nil
  then show ?case by simp
next
  case (Cons key keys)
  from Cons.prems(1) obtain h1 v where
    r: "recur h (h_get h props key) = Some (h1, v)"
    and n: "normalize_props recur (h_assign h1 normalizedProps key v) normalizedProps props keys = Some h'"
    by (auto split: option.splits)
  from framedD [OF assms r] have "length h \<le> length h1" by (rule prefix_length_le)
  with Cons.IH [OF n] show ?case by (simp add: length_h_assign)
qed

lemma normalize_node_frame:
  assumes "framed recur" and "normalize_node recur h a = Some (h', r)"
  shows "prefix h h' \<and> r = HRef (length h) \<and> length h < length h'"
proof -
  define h1 where "h1 = h @ [h ! a]"
  define first where "first =
           (if h_get h1 (length h) ''type'' = HStr ''object'' then
              let (h2, props) =
                    (case h_get h1 (length h) ''properties'' of
                       HRef p \<Rightarrow> (h1, p)
                     | _ \<Rightarrow> (h1 @ [[]], length h1));
                  propKeys = map fst (h2 ! props);
                  h3 = (if length propKeys = 0
                           \<and> h_get h2 (length h) ''additionalProperties'' = HBool False
                        then h_set h2 (length h) ''additionalProperties'' (HBool True)
                        else h2);
                  normalizedProps = length h3;
                  h4 = h3 @ [[]]
              in if props < length h2 then
                   (case normalize_props recur h4 normalizedProps props propKeys of
                      None \<Rightarrow> None
                    | Some h5 \<Rightarrow> Some (h_set h5 (length h) ''properties'' (HRef normalizedProps)))
                 else None
            else Some h1)"
  have p1: "prefix h h1" and l1: "length h < length h1"
    by (simp_all add: h1_def prefix_def)
  from assms(2) obtain h6 where f: "first = Some h6"
    and s: "(if h_get h6 (length h) ''type'' = HStr ''array'' \<and> h_truthy (h_get h6 (length h) ''items'') then
                (case recur h6 (h_get h6 (length h) ''items'') of
                   None \<Rightarrow> None
                 | Some (h7, items) \<Rightarrow> Some (h_set h7 (length h) ''items'' items, HRef (length h)))
              else Some (h6, HRef (length h))) = Some (h', r)"
    unfolding normalize_node_def Let_def first_def h1_def
    by (auto split: option.splits)
  have p6: "prefix h h6 \<and> length h < length h6"
  proof (cases "h_get h1 (length h) ''type'' = HStr ''object''")
    case False
    with f p1 l1 show ?thesis by (simp add: first_def)
  next
    case True
    define hp where "hp = (case h_get h1 (length h) ''properties'' of
                       HRef p \<Rightarrow> (h1, p)
                     | _ \<Rightarrow> (h1 @ [[]], length h1))"
    define h2 where "h2 = fst hp"
    define props where "props = snd hp"
    define h3 where "h3 = (if length (map fst (h2 ! props)) = 0
                           \<and> h_get h2 (length h) ''additionalProperties'' = HBool False
                        then h_set h2 (length h) ''additionalProperties'' (HBool True)
                        else h2)"
    have "h2 = h1 \<or> h2 = h1 @ [[]]"
      by (simp add: h2_def hp_def split: hval.splits)
    with p1 l1 have p2: "prefix h h2" and l2: "length h < length h2"
      by (auto simp: prefix_def)
    then have p3: "prefix h h3" and l3: "length h < length h3"
      by (simp_all add: h3_def prefix_h_set length_h_set)
    then have p4: "prefix h (h3 @ [[]])"
      by (auto simp: prefix_def)
    from f True obtain h5 where
      n: "normalize_props recur (h3 @ [[]]) (length h3) props (map fst (h2 ! props)) = Some h5"
      and h6: "h6 = h_set h5 (length h) ''properties'' (HRef (length h3))"
      unfolding first_def h3_def h2_def props_def hp_def
      by (auto simp: Let_def split_beta split: option.splits if_splits)
    from l3 have "length h \<le> length h3" by simp
    from normalize_props_frame [OF assms(1) n p4 this] have p5: "prefix h h5" .
    then have "length h \<le> length h5" by (rule prefix_length_le)
    moreover have "length h3 < length h5"
      using normalize_props_length [OF assms(1) n] by simp
    ultimately show ?thesis using p5 l3 by (simp add: h6 prefix_h_set length_h_set)
  qed
  show ?thesis
  proof (cases "h_get h6 (length h) ''type'' = HStr ''array'' \<and> h_truthy (h_get h6 (length h) ''items'')")
    case False
    with s p6 show ?thesis by simp
  next
    case True
    with s obtain h7 items where r7: "recur h6 (h_get h6 (length h) ''items'') = Some (h7, items)"
      and e: "h' = h_set h7 (length h) ''items'' items" "r = HRef (length h)"
      by (auto split: option.splits)
    from framedD [OF assms(1) r7] have p67: "prefix h6 h7" .
    with p6 have p7: "prefix h h7" by (blast intro: prefix_order.trans)
    from p67 have "length h6 \<le> length h7" by (rule prefix_length_le)
    with p6 p7 e show ?thesis by (simp add: prefix_h_set length_h_set)
  qed
qed

lemma normalizeSchema_h_framed: "framed (normalizeSchema_h depth)"
proof (induction depth)
  case 0
  show ?case by (simp add: framed_def)
next
  case (Suc depth)
  show ?case
    unfolding framed_def
  proof (intro allI impI)
    fix h v h' r
    assume a: "normalizeSchema_h (Suc depth) h v = Some (h', r)"
    show "prefix h h'"
    proof (cases v)
      case (HRef a')
      with a have "normalize_node (normalizeSchema_h depth) h a' = Some (h', r)"
        by (simp split: if_splits)
      from normalize_node_frame [OF Suc this] show ?thesis by simp
    qed (use a in auto)
  qed
qed

lemma normalizeSchema_h_result:
  assumes "normalizeSchema_h depth h v = Some (h', r)"
  shows "case v of HRef a \<Rightarrow> r = HRef (length h) \<and> length h < length h' | _ \<Rightarrow> r = v \<and> h' = h"
proof (cases depth)
  case 0
  with assms show ?thesis by simp
next
  case (Suc d)
  show ?thesis
  proof (cases v)
    case (HRef a')
    with assms Suc have "normalize_node (normalizeSchema_h d) h a' = Some (h', r)"
      by (simp split: if_splits)
    from normalize_node_frame [OF normalizeSchema_h_framed this] HRef show ?thesis by simp
  qed (use assms Suc in auto)
qed

lemma prefix_take_eq: "prefix a b \<Longrightarrow> n \<le> length a \<Longrightarrow> take n b = take n a"
  by (auto simp: prefix_def)

lemma take_h_set: "n \<le> a \<Longrightarrow> take n (h_set h a k v) = take n h"
  by (simp add: h_set_def)

lemma take_h_assign: "n \<le> a \<Longrightarrow> take n (h_assign h a k v) = take n h"
  by (simp add: h_assign_def take_h_set)

lemma take_nth_eq:
  assumes "take n h' = take n h" and "a < n"
  shows "h' ! a = h ! a"
proof -
  from assms(2) have "h' ! a = take n h' ! a" by simp
  also from assms(1) have "\<dots> = take n h ! a" by simp
  also from assms(2) have "\<dots> = h ! a" by simp
  finally show ?thesis .
qed

lemma nested_within_Suc: "nested_within k h n v \<Longrightarrow> nested_within (Suc k) h n v"
proof (induction k arbitrary: v)
  case 0
  then show ?case by (cases v) auto
next
  case (Suc k)
  then show ?case by (cases v) auto
qed

lemma nested_within_take:
  "take n h' = take n h \<Longrightarrow> nested_within k h' n v = nested_within k h n v"
proof (induction k arbitrary: v)
  case 0
  then show ?case by simp
next
  case (Suc k)
  from Suc.prems have same: "\<And>a. a < n \<Longrightarrow> h' ! a = h ! a" by (rule take_nth_eq)
  show ?case
  proof (cases v)
    case (HRef a)
    show ?thesis
    proof (cases "a < n")
      case True
      with HRef same [OF True] Suc.IH [OF Suc.prems] show ?thesis by simp
    next
      case False
      with HRef show ?thesis by simp
    qed
  qed simp_all
qed

lemma normalize_props_returns:
  assumes fr: "framed recur"
    and ret: "\<And>h' v. take n h' = take n h \<Longrightarrow> n \<le> length h' \<Longrightarrow> v \<in> snd ` set (h ! p)
                \<Longrightarrow> \<exists>x. recur h' v = Some x"
    and p: "p < n" and np: "n \<le> normalizedProps"
  shows "take n hc = take n h \<Longrightarrow> n \<le> length hc \<Longrightarrow> set keys \<subseteq> fst ` set (h ! p)
         \<Longrightarrow> \<exists>h'. normalize_props recur hc normalizedProps p keys = Some h'"
proof (induction keys arbitrary: hc)
  case Nil
  then show ?case by simp
next
  case (Cons key keys)
  from Cons.prems(1) p have hp: "hc ! p = h ! p" by (rule take_nth_eq)
  from Cons.prems(3) obtain b where "(key, b) \<in> set (h ! p)" by auto
  from weak_map_of_SomeI [OF this] obtain g where "map_of (h ! p) key = Some g" ..
  then have g: "h_get hc p key = g" and gin: "g \<in> snd ` set (h ! p)"
    by (auto simp: h_get_def hp dest!: map_of_SomeD intro: rev_image_eqI)
  from ret [OF Cons.prems(1,2) gin] obtain h1 r where r: "recur hc g = Some (h1, r)" by auto
  from framedD [OF fr r] have pre: "prefix hc h1" .
  then have t1: "take n h1 = take n hc" using Cons.prems(2) by (rule prefix_take_eq)
  from pre have "length hc \<le> length h1" by (rule prefix_length_le)
  with Cons.prems(2) have l1: "n \<le> length (h_assign h1 normalizedProps key r)"
    by (simp add: length_h_assign)
  from t1 Cons.prems(1) np have t2: "take n (h_assign h1 normalizedProps key r) = take n h"
    by (simp add: take_h_assign)
  from Cons.prems(3) have "set keys \<subseteq> fst ` set (h ! p)" by simp
  from Cons.IH [OF t2 l1 this] g r show ?case by simp
qed

lemma normalize_node_returns:
  assumes fr: "framed recur"
    and a: "a < n" and n: "n \<le> length h"
    and kids: "\<And>h' v. take n h' = take n h \<Longrightarrow> n \<le> length h' \<Longrightarrow> v \<in> snd ` set (h ! a)
                 \<Longrightarrow> \<exists>x. recur h' v = Some x"
    and grandkids: "\<And>h' p v. take n h' = take n h \<Longrightarrow> n \<le> length h'
                 \<Longrightarrow> HRef p \<in> snd ` set (h ! a) \<Longrightarrow> v \<in> snd ` set (h ! p)
                 \<Longrightarrow> \<exists>x. recur h' v = Some x"
    and inside: "\<And>p. HRef p \<in> snd ` set (h ! a) \<Longrightarrow> p < n"
  shows "\<exists>x. normalize_node recur h a = Some x"
proof -
  define h1 where "h1 = h @ [h ! a]"
  define hp where "hp = (case h_get h1 (length h) ''properties'' of
                       HRef p \<Rightarrow> (h1, p)
                     | _ \<Rightarrow> (h1 @ [[]], length h1))"
  define h2 where "h2 = fst hp"
  define props where "props = snd hp"
  define h3 where "h3 = (if length (map fst (h2 ! props)) = 0
                           \<and> h_get h2 (length h) ''additionalProperties'' = HBool False
                        then h_set h2 (length h) ''additionalProperties'' (HBool True)
                        else h2)"
  define first where "first =
           (if h_get h1 (length h) ''type'' = HStr ''object'' then
              if props < length h2 then
                (case normalize_props recur (h3 @ [[]]) (length h3) props (map fst (h2 ! props)) of
                   None \<Rightarrow> None
                 | Some h5 \<Rightarrow> Some (h_set h5 (length h) ''properties'' (HRef (length h3))))
              else None
            else Some h1)"
  have node: "normalize_node recur h a =
       (case first of
           None \<Rightarrow> None
         | Some h6 \<Rightarrow>
             (if h_get h6 (length h) ''type'' = HStr ''array'' \<and> h_truthy (h_get h6 (length h) ''items'') then
                (case recur h6 (h_get h6 (length h) ''items'') of
                   None \<Rightarrow> None
                 | Some (h7, items) \<Rightarrow> Some (h_set h7 (length h) ''items'' items, HRef (length h)))
              else Some (h6, HRef (length h))))"
    unfolding normalize_node_def first_def h3_def props_def h2_def hp_def h1_def
    by (simp add: Let_def split_beta)
  have copy: "h1 ! length h = h ! a" and l1: "length h1 = Suc (length h)"
    and t1: "take n h1 = take n h"
    using n by (simp_all add: h1_def)
  have val: "h_get h1 (length h) k = HUndef \<or> h_get h1 (length h) k \<in> snd ` set (h ! a)" for k
    by (auto simp: h_get_def copy split: option.splits dest!: map_of_SomeD intro: rev_image_eqI)
  have h2: "(h2 = h1 \<and> HRef props \<in> snd ` set (h ! a)) \<or> (h2 = h1 @ [[]] \<and> props = length h1)"
    using val [of "''properties''"]
    by (auto simp: h2_def props_def hp_def split: hval.splits intro: rev_image_eqI)
  then have t2: "take n h2 = take n h" and l2: "length h < length h2"
    using t1 l1 n by auto
  then have t3: "take n h3 = take n h" and l3: "length h < length h3"
    using n by (simp_all add: h3_def take_h_set length_h_set)
  have pl: "props < length h2"
    using h2
  proof
    assume "h2 = h1 \<and> HRef props \<in> snd ` set (h ! a)"
    with inside [of props] l1 n show ?thesis by simp
  next
    assume "h2 = h1 @ [[]] \<and> props = length h1"
    then show ?thesis by simp
  qed
  from t3 l3 n have t4: "take n (h3 @ [[]]) = take n h" and l4: "n \<le> length (h3 @ [[]])"
    by simp_all
  from l3 n have np: "n \<le> length h3" by simp
  have loop: "\<exists>h5. normalize_props recur (h3 @ [[]]) (length h3) props (map fst (h2 ! props)) = Some h5"
    using h2
  proof
    assume old: "h2 = h1 \<and> HRef props \<in> snd ` set (h ! a)"
    then have pn: "props < n" by (simp add: inside)
    with t2 have "h2 ! props = h ! props" by (intro take_nth_eq)
    then have keys: "set (map fst (h2 ! props)) \<subseteq> fst ` set (h ! props)" by simp
    show ?thesis
    proof (rule normalize_props_returns [OF fr _ pn np t4 l4 keys])
      fix h' v
      assume "take n h' = take n h" and "n \<le> length h'" and "v \<in> snd ` set (h ! props)"
      with old show "\<exists>x. recur h' v = Some x" by (intro grandkids) simp_all
    qed
  next
    assume new: "h2 = h1 @ [[]] \<and> props = length h1"
    then have "h2 ! props = []" by simp
    then show ?thesis by simp
  qed
  show ?thesis
  proof (cases "h_get h1 (length h) ''type'' = HStr ''object''")
    case False
    then have f: "first = Some h1" by (simp add: first_def)
    show ?thesis
    proof (cases "h_get h1 (length h) ''type'' = HStr ''array'' \<and> h_truthy (h_get h1 (length h) ''items'')")
      case False
      with f show ?thesis by (auto simp: node)
    next
      case True
      with val [of "''items''"] have "h_get h1 (length h) ''items'' \<in> snd ` set (h ! a)" by auto
      from kids [OF t1 _ this] n l1 obtain x where "recur h1 (h_get h1 (length h) ''items'') = Some x"
        by auto
      with f True show ?thesis by (cases x) (auto simp: node)
    qed
  next
    case True
    from loop obtain h5 where
      n5: "normalize_props recur (h3 @ [[]]) (length h3) props (map fst (h2 ! props)) = Some h5" ..
    with True pl have f: "first = Some (h_set h5 (length h) ''properties'' (HRef (length h3)))"
      by (simp add: first_def)
    have "prefix h3 (h3 @ [[]])" by (simp add: prefix_def)
    from normalize_props_frame [OF fr n5 this] have p5: "prefix h3 h5" by simp
    with l3 have "h5 ! length h = h3 ! length h" by (auto simp: prefix_def nth_append)
    moreover have "map_of (h3 ! length h) ''type'' = map_of (h1 ! length h) ''type''"
    proof -
      from h2 l1 have "h2 ! length h = h1 ! length h" by (auto simp: nth_append)
      with l2 show ?thesis by (simp add: h3_def h_set_def update_conv')
    qed
    moreover from p5 l3 have "length h < length h5"
      using prefix_length_le [OF p5] by simp
    ultimately have "h_get (h_set h5 (length h) ''properties'' (HRef (length h3))) (length h) ''type''
        = h_get h1 (length h) ''type''"
      by (simp add: h_get_def h_set_def update_conv')
    with True f show ?thesis by (auto simp: node)
  qed
qed

lemma nested_within_children:
  assumes "nested_within k h n (HRef a)"
  shows "a < n \<and> (\<exists>k'. k = Suc k' \<and> (\<forall>c \<in> snd ` set (h ! a). nested_within k' h n c))"
  using assms by (cases k) auto

text \<open>
  The call returns on every value that nests objects finitely deep: \<open>k + 1\<close> nested
  calls are enough for a value that nests them at most \<open>k\<close> deep.
\<close>

lemma normalizeSchema_h_returns_within:
  "nested_within k h n v \<Longrightarrow> n \<le> length h \<Longrightarrow> k < d \<Longrightarrow> \<exists>x. normalizeSchema_h d h v = Some x"
proof (induction d arbitrary: k h v)
  case 0
  then show ?case by simp
next
  case (Suc d)
  show ?case
  proof (cases v)
    case (HRef a)
    from Suc.prems(1) have "nested_within k h n (HRef a)" by (simp only: HRef)
    from nested_within_children [OF this] obtain k1 where a: "a < n" and k: "k = Suc k1"
      and ch: "\<forall>c \<in> snd ` set (h ! a). nested_within k1 h n c"
      by blast
    from k Suc.prems(3) have k1: "k1 < d" by simp
    have "\<exists>x. normalize_node (normalizeSchema_h d) h a = Some x"
    proof (rule normalize_node_returns [OF normalizeSchema_h_framed a Suc.prems(2)])
      fix h' v'
      assume t: "take n h' = take n h" and l: "n \<le> length h'" and m: "v' \<in> snd ` set (h ! a)"
      from ch m have "nested_within k1 h n v'" by blast
      then have "nested_within k1 h' n v'" by (simp only: nested_within_take [OF t])
      from Suc.IH [OF this l k1] show "\<exists>x. normalizeSchema_h d h' v' = Some x" .
    next
      fix h' p v'
      assume t: "take n h' = take n h" and l: "n \<le> length h'"
        and m: "HRef p \<in> snd ` set (h ! a)" and g: "v' \<in> snd ` set (h ! p)"
      from ch m have "nested_within k1 h n (HRef p)" by blast
      from nested_within_children [OF this]
      obtain k2 where k2: "k1 = Suc k2" and gc: "\<forall>c \<in> snd ` set (h ! p). nested_within k2 h n c"
        by blast
      from gc g have "nested_within k2 h n v'" by blast
      then have w: "nested_within k2 h' n v'" by (simp only: nested_within_take [OF t])
      from k2 k1 have "k2 < d" by simp
      from Suc.IH [OF w l this] show "\<exists>x. normalizeSchema_h d h' v' = Some x" .
    next
      fix p
      assume "HRef p \<in> snd ` set (h ! a)"
      with ch have "nested_within k1 h n (HRef p)" by blast
      from nested_within_children [OF this] show "p < n" by blast
    qed
    moreover from a Suc.prems(2) have "a < length h" by simp
    ultimately show ?thesis by (simp only: HRef normalizeSchema_h.simps hval.case if_True)
  qed simp_all
qed

lemma normalizeSchema_h_returns:
  assumes "nested_within k h (length h) schemaNode"
  shows "\<exists>h' result. normalizeSchema_h (Suc k) h schemaNode = Some (h', result)"
  using normalizeSchema_h_returns_within [OF assms, of "Suc k"] by simp

text \<open>
  C7. When \<^verbatim>\<open>normalizeSchema\<close> returns, every object that was in the store before
  the call (the argument, its nested sub-schemas and everything else) is as it was; a
  primitive argument is returned as it is with the store untouched, and for an object
  the result is an object at a new address.
\<close>

theorem normalizeSchema_h_frame:
  assumes "normalizeSchema_h depth h schemaNode = Some (h', result)"
  shows "prefix h h'
       \<and> take (length h) h' = h
       \<and> (case schemaNode of
            HRef a \<Rightarrow> result = HRef (length h) \<and> length h < length h'
          | _ \<Rightarrow> result = schemaNode \<and> h' = h)"
proof -
  from normalizeSchema_h_framed assms have p: "prefix h h'" by (rule framedD)
  then have "take (length h) h' = h" by (auto simp: prefix_def)
  with p normalizeSchema_h_result [OF assms] show ?thesis by simp
qed

theorem normalizeSchema_h_frame_witness:
  "normalizeSchema_h 3 example_heap (HRef 0) = Some (example_heap_normalized, HRef 4)
   \<and> take (length example_heap) example_heap_normalized = example_heap
   \<and> length example_heap = 4"
proof -
  have h: "normalizeSchema_h 3 example_heap (HRef 0) = Some (example_heap_normalized, HRef 4)"
    by code_simp
  have l: "length example_heap = 4" by (simp add: example_heap_def)
  from normalizeSchema_h_frame [OF h]
  have "take (length example_heap) example_heap_normalized = example_heap" by blast
  with h l show ?thesis by blast
qed

end
